theory Spec2Isabelle
  imports Main "HOL-Library.Word" "HOL-Library.Sublist"
begin

section \<open>jack\_cat: data\<close>

text \<open>
  The program moves audio samples between the ports of a JACK client and a file, through
  a ring buffer shared by the JACK process callback and a disk thread. A sample
  (\<^verbatim>\<open>jack_default_audio_sample_t\<close>, a 32-bit float) is never inspected by the program: it
  is copied as four bytes. It is modelled by its object representation, the four
  bytes in memory order, so nothing is assumed about the byte order of the machine.
\<close>

type_synonym byte = "8 word"

datatype sample = Sample byte byte byte byte

fun sample_bytes :: "sample \<Rightarrow> byte list" where
  "sample_bytes (Sample a b c d) = [a, b, c, d]"

text \<open>\<^verbatim>\<open>sizeof(jack_default_audio_sample_t)\<close>\<close>

definition sizeof_sample :: nat where
  "sizeof_sample = 4"

text \<open>
  Copying the bytes \<^verbatim>\<open>bs\<close> to the address of a sample (what \<^verbatim>\<open>jack_ringbuffer_read\<close>
  does with its destination): the first bytes of the object are overwritten, the others
  stay.
\<close>

fun store_sample :: "byte list \<Rightarrow> sample \<Rightarrow> sample" where
  "store_sample (a # b # c # d # _) _ = Sample a b c d"
| "store_sample [a, b, c] (Sample _ _ _ d) = Sample a b c d"
| "store_sample [a, b] (Sample _ _ c d) = Sample a b c d"
| "store_sample [a] (Sample _ b c d) = Sample a b c d"
| "store_sample [] s = s"

text \<open>What \<^verbatim>\<open>memset(p, 0, sizeof(jack_default_audio_sample_t))\<close> leaves in a sample.\<close>

definition zero_sample :: sample where
  "zero_sample = Sample 0 0 0 0"

text \<open>
  \<^verbatim>\<open>struct config\<close>. A \<^verbatim>\<open>char *\<close> that may be \<^verbatim>\<open>NULL\<close> is an option. The \<^verbatim>\<open>int\<close> fields
  hold the mathematical value of the C \<^verbatim>\<open>int\<close>; where the program converts one to
  \<^verbatim>\<open>size_t\<close> the conversion is written out (\<open>size_t_of_int\<close>).
\<close>

record config =
  filename :: "string option"
  io :: int
  ports :: int
  portnames :: "string list option"
  jackname :: "string option"
  portbase :: "string option"
  connect :: "string list option"
  blocksize :: int
  rbsize :: int
  runtime :: int

definition CFG_CAPTURE :: int where
  "CFG_CAPTURE = 1"

definition CFG_PLAYBACK :: int where
  "CFG_PLAYBACK = 2"

definition MAX_PORTS :: nat where
  "MAX_PORTS = 32"

definition FILE_HEADER_LEN :: nat where
  "FILE_HEADER_LEN = 6"

text \<open>
  \<^verbatim>\<open>struct status\<close>: the \<^verbatim>\<open>int\<close> counters are 32-bit words, \<^verbatim>\<open>long disk_bytes\<close> a 64-bit
  word (an LP64 machine), so that \<^verbatim>\<open>++\<close> and \<^verbatim>\<open>+=\<close> wrap as the machine does.
\<close>

record status =
  jack_calls :: "32 word"
  disk_io :: "32 word"
  disk_bytes :: "64 word"
  overflows :: "32 word"
  underruns :: "32 word"
  stop :: "32 word"
  eof :: "32 word"

text \<open>The value of an \<^verbatim>\<open>int\<close> converted to the 64-bit \<^verbatim>\<open>size_t\<close>.\<close>

definition size_t_of_int :: "int \<Rightarrow> nat" where
  "size_t_of_int i = nat (i mod 2 ^ 64)"

section \<open>The ring buffer\<close>

text \<open>
  Modelled from the spec: the ring buffer is JACK's (\<^verbatim>\<open>jack/ringbuffer.h\<close>), a library
  that is not part of the sources. The model follows sections 3 and 4.1 of the
  specification: a storage of capacity \<open>C\<close> bytes, a write cursor and a read cursor that
  only advance, each addressing the storage modulo \<open>C\<close>, with \<open>used = write - read\<close> and
  \<open>free = C - used\<close>.
\<close>

record ringbuffer =
  rb_buf :: "byte list"
  rb_write_ptr :: nat
  rb_read_ptr :: nat

text \<open>Modelled from the spec: \<open>create(capacity)\<close>; \<^verbatim>\<open>main\<close> then clears the storage.\<close>

definition jack_ringbuffer_create :: "nat \<Rightarrow> ringbuffer" where
  "jack_ringbuffer_create sz = \<lparr>rb_buf = replicate sz 0, rb_write_ptr = 0, rb_read_ptr = 0\<rparr>"

text \<open>Modelled from the spec: \<open>readable_bytes()\<close>, the derived quantity \<open>used\<close>.\<close>

definition jack_ringbuffer_read_space :: "ringbuffer \<Rightarrow> nat" where
  "jack_ringbuffer_read_space rb = rb_write_ptr rb - rb_read_ptr rb"

text \<open>Modelled from the spec: \<open>writable_bytes()\<close>, the derived quantity \<open>free\<close>.\<close>

definition jack_ringbuffer_write_space :: "ringbuffer \<Rightarrow> nat" where
  "jack_ringbuffer_write_space rb = length (rb_buf rb) - jack_ringbuffer_read_space rb"

text \<open>
  Modelled from the spec: storing bytes from cursor position \<open>p\<close> on, wrapping at the end
  of the storage.
\<close>

fun rb_store :: "byte list \<Rightarrow> nat \<Rightarrow> byte list \<Rightarrow> byte list" where
  "rb_store buf p [] = buf"
| "rb_store buf p (b # bs) = rb_store (buf[p mod length buf := b]) (Suc p) bs"

text \<open>Modelled from the spec: the bytes between two cursor positions.\<close>

definition rb_span :: "byte list \<Rightarrow> nat \<Rightarrow> nat \<Rightarrow> byte list" where
  "rb_span buf p q = map (\<lambda>k. buf ! (k mod length buf)) [p..<q]"

text \<open>
  Modelled from the spec: \<open>write(src, len) -> bytes_written\<close>: copies into the buffer,
  advances the write cursor, never blocks; what does not fit is not written.
\<close>

definition jack_ringbuffer_write :: "ringbuffer \<Rightarrow> byte list \<Rightarrow> ringbuffer \<times> nat" where
  "jack_ringbuffer_write rb src =
     (let to_write = min (length src) (jack_ringbuffer_write_space rb)
      in (rb\<lparr>rb_buf := rb_store (rb_buf rb) (rb_write_ptr rb) (take to_write src),
             rb_write_ptr := rb_write_ptr rb + to_write\<rparr>,
          to_write))"

text \<open>Modelled from the spec: \<open>read(dst, len) -> bytes_read\<close>, symmetric; the bytes are returned.\<close>

definition jack_ringbuffer_read :: "ringbuffer \<Rightarrow> nat \<Rightarrow> ringbuffer \<times> byte list" where
  "jack_ringbuffer_read rb cnt =
     (let to_read = min cnt (jack_ringbuffer_read_space rb)
      in (rb\<lparr>rb_read_ptr := rb_read_ptr rb + to_read\<rparr>,
          rb_span (rb_buf rb) (rb_read_ptr rb) (rb_read_ptr rb + to_read)))"

text \<open>
  Modelled from the spec: a contiguous span of the storage (\<^verbatim>\<open>jack_ringbuffer_data_t\<close>):
  where it starts in the storage and how long it is.
\<close>

record jack_ringbuffer_data_t =
  vec_buf :: nat
  vec_len :: nat

text \<open>
  Modelled from the spec: \<open>peek_read_region()\<close>: up to two contiguous spans holding the
  readable bytes, the second empty when the region does not wrap.
\<close>

definition jack_ringbuffer_get_read_vector :: "ringbuffer \<Rightarrow> jack_ringbuffer_data_t list" where
  "jack_ringbuffer_get_read_vector rb =
     (let sz = length (rb_buf rb);
          cnt = jack_ringbuffer_read_space rb;
          off = rb_read_ptr rb mod sz
      in if off + cnt > sz
         then [\<lparr>vec_buf = off, vec_len = sz - off\<rparr>, \<lparr>vec_buf = 0, vec_len = off + cnt - sz\<rparr>]
         else [\<lparr>vec_buf = off, vec_len = cnt\<rparr>, \<lparr>vec_buf = 0, vec_len = 0\<rparr>])"

text \<open>Modelled from the spec: \<open>peek_write_region()\<close>: the same for the writable bytes.\<close>

definition jack_ringbuffer_get_write_vector :: "ringbuffer \<Rightarrow> jack_ringbuffer_data_t list" where
  "jack_ringbuffer_get_write_vector rb =
     (let sz = length (rb_buf rb);
          cnt = jack_ringbuffer_write_space rb;
          off = rb_write_ptr rb mod sz
      in if off + cnt > sz
         then [\<lparr>vec_buf = off, vec_len = sz - off\<rparr>, \<lparr>vec_buf = 0, vec_len = off + cnt - sz\<rparr>]
         else [\<lparr>vec_buf = off, vec_len = cnt\<rparr>, \<lparr>vec_buf = 0, vec_len = 0\<rparr>])"

text \<open>Modelled from the spec: \<open>advance_read(n)\<close> commits a zero-copy transfer.\<close>

definition jack_ringbuffer_read_advance :: "ringbuffer \<Rightarrow> nat \<Rightarrow> ringbuffer" where
  "jack_ringbuffer_read_advance rb cnt = rb\<lparr>rb_read_ptr := rb_read_ptr rb + cnt\<rparr>"

text \<open>Modelled from the spec: \<open>advance_write(n)\<close> commits a zero-copy transfer.\<close>

definition jack_ringbuffer_write_advance :: "ringbuffer \<Rightarrow> nat \<Rightarrow> ringbuffer" where
  "jack_ringbuffer_write_advance rb cnt = rb\<lparr>rb_write_ptr := rb_write_ptr rb + cnt\<rparr>"

text \<open>
  The invariant of section 3 of the specification, \<open>0 \<le> used \<le> C\<close>, and the queue of
  bytes the buffer holds: those between the read and the write cursor.
\<close>

definition rb_wf :: "ringbuffer \<Rightarrow> bool" where
  "rb_wf rb \<longleftrightarrow> rb_read_ptr rb \<le> rb_write_ptr rb
     \<and> rb_write_ptr rb - rb_read_ptr rb \<le> length (rb_buf rb)"

definition rb_contents :: "ringbuffer \<Rightarrow> byte list" where
  "rb_contents rb = rb_span (rb_buf rb) (rb_read_ptr rb) (rb_write_ptr rb)"

section \<open>The process state and its environment\<close>

text \<open>
  What the program prints is kept as a structured message; progress lines on standard
  output that carry no decision (\<^verbatim>\<open>disk_write %s\<close>, the counters printed by \<^verbatim>\<open>main\<close>)
  are left out. \<open>Msg_short_write l w\<close> is the line \<^verbatim>\<open>write(%ld) = %ld %d\<close>.
\<close>

datatype message =
    Msg_b_units_invalid
  | Msg_B_units_invalid
  | Msg_ports_required
  | Msg_io_required
  | Msg_filename_required
  | Msg_usage
  | Msg_help
  | Msg_port_names int
  | Msg_cannot_create
  | Msg_cannot_open
  | Msg_cannot_read_data
  | Msg_short_write nat nat
  | Msg_read_eof

text \<open>
  The effects on the environment, in the order the program performs them:
  output, the operations on \<^verbatim>\<open>disk_mutex\<close> and \<^verbatim>\<open>disk_cond\<close>, and the request to JACK
  to deactivate the client.
\<close>

datatype event =
    Stderr message
  | Stdout message
  | Mutex_lock
  | Mutex_trylock bool
  | Mutex_unlock
  | Cond_signal
  | Cond_wait
  | Jack_deactivate
  | File_close

text \<open>
  The globals \<^verbatim>\<open>status\<close>, \<^verbatim>\<open>buffer\<close> and \<^verbatim>\<open>disk_mutex\<close> (\<open>True\<close>: held by the disk thread),
  with the part of the environment the program acts on: the bytes of the file behind
  the disk thread's descriptor, the offset of that descriptor, whether the disk thread
  is inside its loop, and the effects so far.
\<close>

record world =
  status :: status
  buffer :: ringbuffer
  disk_mutex :: bool
  disk_file :: "byte list"
  disk_offset :: nat
  disk_running :: bool
  trace :: "event list"

text \<open>
  What \<^verbatim>\<open>write(fd, buf, l)\<close> returns is the environment's choice: it takes some of the
  bytes, or fails. The descriptor is opened with \<^verbatim>\<open>O_APPEND\<close>, so the bytes taken go to
  the end of the file. The result is the file afterwards and the return value as the
  program stores it, in a \<^verbatim>\<open>size_t\<close> (\<open>-1\<close> becomes \<open>2 ^ 64 - 1\<close>).
\<close>

datatype io_result = Io_bytes nat | Io_error

fun os_write :: "io_result \<Rightarrow> byte list \<Rightarrow> byte list \<Rightarrow> byte list \<times> nat" where
  "os_write (Io_bytes k) file bs = (file @ take k bs, min k (length bs))"
| "os_write Io_error file bs = (file, 2 ^ 64 - 1)"

text \<open>
  \<^verbatim>\<open>read(fd, buf, l)\<close> on a regular file: the next \<open>l\<close> bytes from the offset, fewer only
  at the end of the file.
\<close>

definition os_read :: "byte list \<Rightarrow> nat \<Rightarrow> nat \<Rightarrow> byte list" where
  "os_read file off l = take l (drop off file)"

section \<open>The JACK process callbacks\<close>

text \<open>
  The four places that wake the disk thread do it the same way:
  \<^verbatim>\<open>if (pthread_mutex_trylock(&disk_mutex) == 0) { pthread_cond_signal(&disk_cond);
  pthread_mutex_unlock(&disk_mutex); }\<close>
\<close>

definition signal_disk_thread :: "world \<Rightarrow> world" where
  "signal_disk_thread g =
     (if disk_mutex g
      then g\<lparr>trace := trace g @ [Mutex_trylock False]\<rparr>
      else g\<lparr>trace := trace g @ [Mutex_trylock True, Cond_signal, Mutex_unlock]\<rparr>)"

text \<open>
  \<^verbatim>\<open>nframes * sizeof(jack_default_audio_sample_t) * nports\<close>, computed in \<^verbatim>\<open>size_t\<close>.
\<close>

definition required_bytes :: "nat \<Rightarrow> int \<Rightarrow> nat" where
  "required_bytes nframes nports = (nframes * sizeof_sample * size_t_of_int nports) mod 2 ^ 64"

text \<open>
  The capture loops. \<open>bufs ! i\<close> is the buffer \<^verbatim>\<open>jack_port_get_buffer\<close> returns for port
  \<open>i\<close>; the pointer \<^verbatim>\<open>cbd->buf[i]\<close> starts there and is advanced once in every frame, so
  in frame \<open>f\<close> it points at element \<open>f\<close>. The loop counters are \<^verbatim>\<open>int\<close>s and \<^verbatim>\<open>cbd->buf\<close> has
  \<open>MAX_PORTS\<close> elements: the theorems below are about periods of less than \<open>2 ^ 31\<close> frames
  and about at most 32 ports, where no counter overflows and no index leaves the array.
\<close>

definition capture_frame :: "sample list list \<Rightarrow> int \<Rightarrow> nat \<Rightarrow> ringbuffer \<Rightarrow> ringbuffer" where
  "capture_frame bufs nports f =
     fold (\<lambda>i rb. fst (jack_ringbuffer_write rb (sample_bytes (bufs ! i ! f)))) [0..<nat nports]"

definition capture_frames :: "sample list list \<Rightarrow> int \<Rightarrow> nat \<Rightarrow> ringbuffer \<Rightarrow> ringbuffer" where
  "capture_frames bufs nports nframes = fold (capture_frame bufs nports) [0..<nframes]"

definition jack_capture_callback :: "config \<Rightarrow> nat \<Rightarrow> sample list list \<Rightarrow> world \<Rightarrow> world \<times> int" where
  "jack_capture_callback cfg nframes bufs g0 =
     (let g = g0\<lparr>status := (status g0)\<lparr>jack_calls := jack_calls (status g0) + 1\<rparr>\<rparr>;
          nports = ports cfg;
          space = jack_ringbuffer_write_space (buffer g)
      in if space < required_bytes nframes nports
         then (g\<lparr>status := (status g)\<lparr>overflows := overflows (status g) + 1\<rparr>\<rparr>, 0)
         else (signal_disk_thread (g\<lparr>buffer := capture_frames bufs nports nframes (buffer g)\<rparr>), 0))"

text \<open>
  The playback loops: each step reads one sample from the ring buffer to where
  \<^verbatim>\<open>cbd->buf[i]\<close> points, element \<open>f\<close> of the buffer of port \<open>i\<close>.
\<close>

definition playback_step ::
  "nat \<Rightarrow> nat \<Rightarrow> ringbuffer \<times> sample list list \<Rightarrow> ringbuffer \<times> sample list list" where
  "playback_step f =
     (\<lambda>i (rb, bufs).
        let (rb', bs) = jack_ringbuffer_read rb sizeof_sample
        in (rb', bufs[i := (bufs ! i)[f := store_sample bs (bufs ! i ! f)]]))"

definition playback_frame ::
  "int \<Rightarrow> nat \<Rightarrow> ringbuffer \<times> sample list list \<Rightarrow> ringbuffer \<times> sample list list" where
  "playback_frame nports f = fold (playback_step f) [0..<nat nports]"

definition playback_frames ::
  "int \<Rightarrow> nat \<Rightarrow> ringbuffer \<times> sample list list \<Rightarrow> ringbuffer \<times> sample list list" where
  "playback_frames nports nframes = fold (playback_frame nports) [0..<nframes]"

text \<open>
  \<^verbatim>\<open>memset((char *)p, 0, sizeof(jack_default_audio_sample_t) * nframes)\<close> on a port buffer.
\<close>

definition memset_zero :: "sample list \<Rightarrow> nat \<Rightarrow> sample list" where
  "memset_zero buf nframes = replicate (min nframes (length buf)) zero_sample @ drop nframes buf"

text \<open>
  The result is the state, the port buffers as the callback leaves them, and the
  value returned to JACK. \<open>bufs\<close> are the buffers \<^verbatim>\<open>jack_port_get_buffer\<close> hands out, with
  whatever they hold on entry.
\<close>

definition jack_playback_callback ::
  "config \<Rightarrow> nat \<Rightarrow> sample list list \<Rightarrow> world \<Rightarrow> world \<times> sample list list \<times> int" where
  "jack_playback_callback cfg nframes bufs g0 =
     (let g = g0\<lparr>status := (status g0)\<lparr>jack_calls := jack_calls (status g0) + 1\<rparr>\<rparr>;
          nports = ports cfg;
          space = jack_ringbuffer_read_space (buffer g)
      in if space < required_bytes nframes nports
         then
           (let g1 = g\<lparr>status := (status g)\<lparr>underruns := underruns (status g) + 1\<rparr>\<rparr>;
                bufs1 = fold (\<lambda>i bs. bs[i := memset_zero (bs ! i) nframes]) [0..<nat nports] bufs;
                g2 = (if eof (status g1) \<noteq> 0
                      then g1\<lparr>status := (status g1)\<lparr>stop := 1\<rparr>,
                              trace := trace g1 @ [Jack_deactivate]\<rparr>
                      else g1)
            in (g2, bufs1, 0))
         else
           (let (rb, bufs1) = playback_frames nports nframes (buffer g, bufs)
            in (signal_disk_thread (g\<lparr>buffer := rb\<rparr>), bufs1, 0)))"

section \<open>The disk thread\<close>

text \<open>\<^verbatim>\<open>sprintf\<close> of an \<^verbatim>\<open>int\<close> with \<^verbatim>\<open>%1d\<close>: the decimal digits, at least one, after a minus sign if negative.\<close>

fun dec_digits :: "nat \<Rightarrow> string" where
  "dec_digits n = (if n < 10 then [char_of (48 + n)] else dec_digits (n div 10) @ [char_of (48 + n mod 10)])"

definition sprintf_d :: "int \<Rightarrow> string" where
  "sprintf_d i = (if i < 0 then CHR ''-'' # dec_digits (nat (- i)) else dec_digits (nat i))"

text \<open>
  The header: \<^verbatim>\<open>n = sprintf(label, "JACK%1d", c->ports); write(fd, label, n+1);\<close>, the
  characters and the terminating zero byte. \<^verbatim>\<open>label\<close> has \<open>FILE_HEADER_LEN\<close> bytes; the
  model takes the \<open>n + 1\<close> bytes \<^verbatim>\<open>sprintf\<close> produces also when they are more.
\<close>

definition file_header :: "int \<Rightarrow> byte list" where
  "file_header p = map of_char (''JACK'' @ sprintf_d p) @ [0]"

text \<open>The thread leaves its loop: \<^verbatim>\<open>pthread_mutex_unlock; close(fd); pthread_exit\<close>.\<close>

definition disk_exit :: "world \<Rightarrow> world" where
  "disk_exit g = g\<lparr>disk_mutex := False, disk_running := False,
                    trace := trace g @ [Mutex_unlock, File_close]\<rparr>"

text \<open>\<^verbatim>\<open>pthread_cond_wait\<close>: the mutex is released while the thread sleeps.\<close>

definition cond_wait :: "world \<Rightarrow> world" where
  "cond_wait g = g\<lparr>disk_mutex := False, trace := trace g @ [Cond_wait]\<rparr>"

text \<open>\<^verbatim>\<open>if (l > c->blocksize) l = c->blocksize;\<close> with \<open>l\<close> a \<^verbatim>\<open>size_t\<close>.\<close>

definition limit_blocksize :: "config \<Rightarrow> nat \<Rightarrow> nat" where
  "limit_blocksize c l = (if l > size_t_of_int (blocksize c) then size_t_of_int (blocksize c) else l)"

text \<open>
  \<^verbatim>\<open>disk_write\<close> up to its loop. \<open>opened\<close> tells whether \<^verbatim>\<open>open\<close> succeeded, \<open>hw\<close> what the
  \<^verbatim>\<open>write\<close> of the header does; its return value is not looked at.
\<close>

definition disk_write_start :: "config \<Rightarrow> bool \<Rightarrow> io_result \<Rightarrow> world \<Rightarrow> world" where
  "disk_write_start c opened hw g =
     (if \<not> opened
      then g\<lparr>status := (status g)\<lparr>stop := 1\<rparr>, trace := trace g @ [Stderr Msg_cannot_create]\<rparr>
      else g\<lparr>disk_file := fst (os_write hw (disk_file g) (file_header (ports c))),
             disk_mutex := True, disk_running := True,
             trace := trace g @ [Mutex_lock]\<rparr>)"

text \<open>The body of the loop of \<^verbatim>\<open>disk_write\<close>; \<open>wres\<close> is what \<^verbatim>\<open>write\<close> does this time.\<close>

definition disk_write_iter :: "config \<Rightarrow> io_result \<Rightarrow> world \<Rightarrow> world" where
  "disk_write_iter c wres g =
     (let available = jack_ringbuffer_read_space (buffer g)
      in if available > 0
         then
           (let vec = jack_ringbuffer_get_read_vector (buffer g);
                l = vec_len (vec ! 0)
            in if l = 0 then g
               else
                 (let l = limit_blocksize c l;
                      g1 = g\<lparr>status := (status g)\<lparr>disk_io := disk_io (status g) + 1,
                                                  disk_bytes := disk_bytes (status g) + of_nat l\<rparr>\<rparr>;
                      (file', w) = os_write wres (disk_file g1)
                                     (take l (drop (vec_buf (vec ! 0)) (rb_buf (buffer g1))));
                      g2 = g1\<lparr>disk_file := file'\<rparr>;
                      g3 = (if w \<noteq> l then g2\<lparr>trace := trace g2 @ [Stderr (Msg_short_write l w)]\<rparr>
                            else g2)
                  in g3\<lparr>buffer := jack_ringbuffer_read_advance (buffer g3) l\<rparr>))
         else cond_wait g)"

text \<open>
  One turn of the disk thread in capture: nothing once it has left; else it holds the
  mutex (again, after a wait), tests \<^verbatim>\<open>status.stop == 0\<close> and runs the body or leaves.
\<close>

definition disk_write_step :: "config \<Rightarrow> io_result \<Rightarrow> world \<Rightarrow> world" where
  "disk_write_step c wres g =
     (if \<not> disk_running g then g
      else if stop (status g) = 0 then disk_write_iter c wres (g\<lparr>disk_mutex := True\<rparr>)
      else disk_exit g)"

text \<open>
  \<^verbatim>\<open>disk_read\<close> up to its loop: \<open>FILE_HEADER_LEN\<close> bytes are read and not looked at.
\<close>

definition disk_read_start :: "config \<Rightarrow> bool \<Rightarrow> world \<Rightarrow> world" where
  "disk_read_start c opened g =
     (if \<not> opened
      then g\<lparr>status := (status g)\<lparr>stop := 1\<rparr>, trace := trace g @ [Stderr Msg_cannot_open]\<rparr>
      else
        (let label = os_read (disk_file g) (disk_offset g) FILE_HEADER_LEN;
             r = length label;
             g1 = g\<lparr>disk_offset := disk_offset g + r\<rparr>
         in if r < FILE_HEADER_LEN
            then g1\<lparr>status := (status g1)\<lparr>stop := 1\<rparr>,
                    trace := trace g1 @ [Stderr Msg_cannot_read_data]\<rparr>
            else g1\<lparr>disk_mutex := True, disk_running := True,
                    trace := trace g1 @ [Mutex_lock]\<rparr>))"

text \<open>
  The body of the loop of \<^verbatim>\<open>disk_read\<close>. The file is read into the storage of the
  ring buffer, at the first span of the write vector; the write cursor moves only in
  the branch \<^verbatim>\<open>r == l\<close>.
\<close>

definition disk_read_iter :: "config \<Rightarrow> world \<Rightarrow> world" where
  "disk_read_iter c g =
     (let available = jack_ringbuffer_write_space (buffer g)
      in if available > 0
         then
           (let vec = jack_ringbuffer_get_write_vector (buffer g);
                l = vec_len (vec ! 0)
            in if l = 0 then g
               else
                 (let l = limit_blocksize c l;
                      g1 = g\<lparr>status := (status g)\<lparr>disk_io := disk_io (status g) + 1,
                                                  disk_bytes := disk_bytes (status g) + of_nat l\<rparr>\<rparr>;
                      bytes = os_read (disk_file g1) (disk_offset g1) l;
                      r = length bytes;
                      g2 = g1\<lparr>disk_offset := disk_offset g1 + r,
                              buffer := (buffer g1)\<lparr>rb_buf :=
                                 rb_store (rb_buf (buffer g1)) (vec_buf (vec ! 0)) bytes\<rparr>\<rparr>
                  in if r \<noteq> l
                     then (if r = 0
                           then disk_exit (g2\<lparr>status := (status g2)\<lparr>eof := 1\<rparr>,
                                              trace := trace g2 @ [Stderr Msg_read_eof]\<rparr>)
                           else g2)
                     else g2\<lparr>buffer := jack_ringbuffer_write_advance (buffer g2) l\<rparr>))
         else cond_wait g)"

definition disk_read_step :: "config \<Rightarrow> world \<Rightarrow> world" where
  "disk_read_step c g =
     (if \<not> disk_running g then g
      else if stop (status g) = 0 then disk_read_iter c (g\<lparr>disk_mutex := True\<rparr>)
      else disk_exit g)"

section \<open>Signals\<close>

definition timeout_handler :: "world \<Rightarrow> world" where
  "timeout_handler g = g\<lparr>status := (status g)\<lparr>stop := 1\<rparr>\<rparr>"

definition signal_handler :: "world \<Rightarrow> world" where
  "signal_handler g = signal_disk_thread (g\<lparr>status := (status g)\<lparr>stop := 1\<rparr>\<rparr>)"

text \<open>The operations on the mutex and the condition variable that can block the caller.\<close>

fun blocking :: "event \<Rightarrow> bool" where
  "blocking Mutex_lock = True"
| "blocking Cond_wait = True"
| "blocking _ = False"

section \<open>The interleaved order, in the specification's words\<close>

text \<open>
  The specification's glossary: interleaved is the sample ordering where all channels'
  samples for frame \<open>i\<close> precede any sample of frame \<open>i + 1\<close>; within a frame the
  samples go by channel, channel 0 first. \<open>bufs ! i ! f\<close> is sample \<open>f\<close> of channel \<open>i\<close>.
\<close>

definition frame_interleaved :: "nat \<Rightarrow> nat \<Rightarrow> sample list list \<Rightarrow> sample list" where
  "frame_interleaved nports nframes bufs =
     concat (map (\<lambda>f. map (\<lambda>i. bufs ! i ! f) [0..<nports]) [0..<nframes])"

definition samples_bytes :: "sample list \<Rightarrow> byte list" where
  "samples_bytes xs = concat (map sample_bytes xs)"

text \<open>
  What \<^verbatim>\<open>jack_port_get_buffer\<close> promises for an invocation with \<open>nframes\<close> frames: one
  buffer for each port, each of \<open>nframes\<close> samples.
\<close>

definition port_buffers :: "nat \<Rightarrow> nat \<Rightarrow> sample list list \<Rightarrow> bool" where
  "port_buffers nports nframes bufs \<longleftrightarrow>
     length bufs = nports \<and> list_all (\<lambda>b. length b = nframes) bufs"

section \<open>Start-up\<close>

text \<open>
  \<^verbatim>\<open>main\<close> clears \<^verbatim>\<open>status\<close> and \<^verbatim>\<open>config\<close>, sets the two default sizes and creates the
  ring buffer with the configured size.
\<close>

definition initial_status :: status where
  "initial_status = \<lparr>jack_calls = 0, disk_io = 0, disk_bytes = 0, overflows = 0, underruns = 0,
     stop = 0, eof = 0\<rparr>"

definition initial_config :: config where
  "initial_config = \<lparr>filename = None, io = 0, ports = 0, portnames = None, jackname = None,
     portbase = None, connect = None, blocksize = 1048576, rbsize = 1048576, runtime = 0\<rparr>"

definition initial_world :: "config \<Rightarrow> byte list \<Rightarrow> world" where
  "initial_world c file = \<lparr>status = initial_status,
     buffer = jack_ringbuffer_create (size_t_of_int (rbsize c)),
     disk_mutex = False, disk_file = file, disk_offset = 0, disk_running = False, trace = []\<rparr>"

section \<open>States for the examples\<close>

text \<open>
  Two ports with two frames each; a ring buffer of eight bytes that is full, and one
  that holds seven bytes.
\<close>

definition example_buffers :: "sample list list" where
  "example_buffers = [[Sample 1 2 3 4, Sample 5 6 7 8], [Sample 9 10 11 12, Sample 13 14 15 16]]"

definition example_ring :: ringbuffer where
  "example_ring = \<lparr>rb_buf = [1, 2, 3, 4, 5, 6, 7, 8], rb_write_ptr = 8, rb_read_ptr = 0\<rparr>"

definition example_ring_short :: ringbuffer where
  "example_ring_short = \<lparr>rb_buf = [1, 2, 3, 4, 5, 6, 7, 8], rb_write_ptr = 7, rb_read_ptr = 0\<rparr>"

section \<open>The command line\<close>

text \<open>
  \<^verbatim>\<open>getopt\<close> and \<^verbatim>\<open>sscanf\<close> belong to the C library. The model takes each option as
  \<^verbatim>\<open>getopt\<close> returns it, together with what \<^verbatim>\<open>sscanf\<close> makes of its argument. For
  \<^verbatim>\<open>sscanf(optarg, "%i%c", &n, &u)\<close>: \<open>None\<close> when nothing is converted, \<open>Some (n, None)\<close>
  when only the number is (\<open>r = 1\<close>), \<open>Some (n, Some u)\<close> when a character follows it
  (\<open>r = 2\<close>). For \<^verbatim>\<open>sscanf(optarg, "%i", &n)\<close>: the number, if one is converted.
  \<open>Opt_unknown\<close> is \<^verbatim>\<open>getopt\<close> returning \<^verbatim>\<open>'?'\<close>. The options \<^verbatim>\<open>C\<close> and \<^verbatim>\<open>P\<close> are accepted
  by \<^verbatim>\<open>getopt\<close> and have no case in the \<^verbatim>\<open>switch\<close>.
\<close>

datatype getopt =
    Opt_b "(int \<times> char option) option"
  | Opt_B "(int \<times> char option) option"
  | Opt_c string
  | Opt_C string
  | Opt_h
  | Opt_j string
  | Opt_n "int option"
  | Opt_N string
  | Opt_p string
  | Opt_P string
  | Opt_t "int option"
  | Opt_unknown

definition units :: "char \<Rightarrow> int" where
  "units u =
     (if u = CHR ''k'' then 1024
      else if u = CHR ''m'' then 1048576
      else if u = CHR ''g'' then 1073741824
      else -1)"

text \<open>
  \<^verbatim>\<open>c->blocksize *= m\<close> and \<^verbatim>\<open>c->rbsize *= m\<close> multiply two \<^verbatim>\<open>int\<close>s of 32 bits into an
  \<^verbatim>\<open>int\<close>: the product is reduced to 32 bits and read as a signed number, as the
  compiled program does it, so that \<^verbatim>\<open>-b 3g\<close> gives a negative block size.
\<close>

definition int_mul :: "int \<Rightarrow> int \<Rightarrow> int" where
  "int_mul a b = sint (word_of_int (a * b) :: 32 word)"

text \<open>
  The \<^verbatim>\<open>while\<close> loop over the options. The result tells whether the function returned 1
  from inside the loop (\<^verbatim>\<open>-h\<close>, an unknown option), and gives the configuration and
  the output so far.
\<close>

fun parse_opts :: "getopt list \<Rightarrow> config \<Rightarrow> event list \<Rightarrow> bool \<times> config \<times> event list" where
  "parse_opts [] c out = (False, c, out)"
| "parse_opts (Opt_b None # opts) c out = parse_opts opts c out"
| "parse_opts (Opt_b (Some (n, None)) # opts) c out = parse_opts opts (c\<lparr>blocksize := n\<rparr>) out"
| "parse_opts (Opt_b (Some (n, Some u)) # opts) c out =
     (if units u = -1
      then parse_opts opts (c\<lparr>blocksize := n\<rparr>) (out @ [Stderr Msg_b_units_invalid])
      else parse_opts opts (c\<lparr>blocksize := int_mul n (units u)\<rparr>) out)"
| "parse_opts (Opt_B None # opts) c out = parse_opts opts c out"
| "parse_opts (Opt_B (Some (n, None)) # opts) c out = parse_opts opts (c\<lparr>rbsize := n\<rparr>) out"
| "parse_opts (Opt_B (Some (n, Some u)) # opts) c out =
     (if units u = -1
      then parse_opts opts (c\<lparr>rbsize := n\<rparr>) (out @ [Stderr Msg_B_units_invalid])
      else parse_opts opts (c\<lparr>rbsize := int_mul n (units u)\<rparr>) out)"
| "parse_opts (Opt_c f # opts) c out = parse_opts opts (c\<lparr>filename := Some f, io := CFG_CAPTURE\<rparr>) out"
| "parse_opts (Opt_C f # opts) c out = parse_opts opts c out"
| "parse_opts (Opt_h # opts) c out = (True, c, out @ [Stdout Msg_help])"
| "parse_opts (Opt_j s # opts) c out = parse_opts opts (c\<lparr>jackname := Some s\<rparr>) out"
| "parse_opts (Opt_n None # opts) c out = parse_opts opts c out"
| "parse_opts (Opt_n (Some n) # opts) c out = parse_opts opts (c\<lparr>ports := n\<rparr>) out"
| "parse_opts (Opt_N s # opts) c out = parse_opts opts (c\<lparr>portbase := Some s\<rparr>) out"
| "parse_opts (Opt_p f # opts) c out = parse_opts opts (c\<lparr>filename := Some f, io := CFG_PLAYBACK\<rparr>) out"
| "parse_opts (Opt_P f # opts) c out = parse_opts opts c out"
| "parse_opts (Opt_t None # opts) c out = parse_opts opts c out"
| "parse_opts (Opt_t (Some n) # opts) c out = parse_opts opts (c\<lparr>runtime := n\<rparr>) out"
| "parse_opts (Opt_unknown # opts) c out = (True, c, out @ [Stdout Msg_usage])"

text \<open>The required argument checks at the end of \<^verbatim>\<open>parse_args\<close>.\<close>

definition required_checks :: "config \<Rightarrow> event list \<Rightarrow> int \<times> config \<times> event list" where
  "required_checks c out =
     (if io c = 0 then (1, c, out @ [Stderr Msg_io_required])
      else if filename c = None then (1, c, out @ [Stderr Msg_filename_required])
      else (0, c, out))"




text \<open>
  A file of one port whose data are two bytes, less than a sample, and the disk reader
  at the start of its loop on that file with an empty ring buffer of eight bytes.
\<close>

definition example_short_file :: "byte list" where
  "example_short_file = [74, 65, 67, 75, 49, 0, 1, 2]"

definition example_reader :: world where
  "example_reader = disk_read_start (initial_config\<lparr>ports := 1\<rparr>) True
     ((initial_world initial_config example_short_file)\<lparr>buffer := jack_ringbuffer_create 8\<rparr>)"

section \<open>Whole runs\<close>

text \<open>
  A capture, as a sequence of turns of the two threads: JACK invokes the process
  callback for a period of \<open>nframes\<close> frames, with the port buffers it hands out, or the
  disk writer takes a turn of its loop, with what \<^verbatim>\<open>write\<close> does that time.
\<close>

datatype capture_event = Jack_capture nat "sample list list" | Disk_write io_result

fun capture_turn :: "config \<Rightarrow> capture_event \<Rightarrow> world \<Rightarrow> world" where
  "capture_turn c (Jack_capture nframes bufs) g = fst (jack_capture_callback c nframes bufs g)"
| "capture_turn c (Disk_write wres) g = disk_write_step c wres g"

text \<open>
  The state after the turns, from the state in which the disk writer has entered its loop.
\<close>

fun capture_run :: "config \<Rightarrow> capture_event list \<Rightarrow> world \<Rightarrow> world" where
  "capture_run c [] g = g"
| "capture_run c (e # es) g = capture_run c es (capture_turn c e g)"

text \<open>
  No overflow occurs during the run: no turn changes the overflow counter.
\<close>

fun no_overflow :: "config \<Rightarrow> capture_event list \<Rightarrow> world \<Rightarrow> bool" where
  "no_overflow c [] g = True"
| "no_overflow c (e # es) g =
     (overflows (status (capture_turn c e g)) = overflows (status g)
      \<and> no_overflow c es (capture_turn c e g))"

text \<open>
  The signal that is captured: the periods handed to the callback, each frame-interleaved.
\<close>

fun captured :: "config \<Rightarrow> capture_event list \<Rightarrow> sample list" where
  "captured c [] = []"
| "captured c (Jack_capture nframes bufs # es) =
     frame_interleaved (nat (ports c)) nframes bufs @ captured c es"
| "captured c (Disk_write wres # es) = captured c es"

text \<open>
  The number of frames of the periods.
\<close>

fun capture_frames_total :: "capture_event list \<Rightarrow> nat" where
  "capture_frames_total [] = 0"
| "capture_frames_total (Jack_capture nframes bufs # es) = nframes + capture_frames_total es"
| "capture_frames_total (Disk_write wres # es) = capture_frames_total es"

text \<open>
  A period is below \<open>2 ^ 31\<close> frames: \<^verbatim>\<open>jack_nframes_t\<close> is a 32-bit unsigned number, and
  the frame loops of the callbacks count it with an \<^verbatim>\<open>int\<close>.
\<close>

fun capture_periods :: "capture_event list \<Rightarrow> bool" where
  "capture_periods [] = True"
| "capture_periods (Jack_capture nframes bufs # es) = (nframes < 2 ^ 31 \<and> capture_periods es)"
| "capture_periods (Disk_write wres # es) = capture_periods es"

text \<open>
  What holds of the file and the ring buffer after any capture without overflow, for the
  header \<open>hdr\<close> and the bytes \<open>acc\<close> of the signal so far: they never hold more bytes than
  header and signal, and if they hold as many they hold exactly these bytes, in order.
\<close>

definition capture_inv :: "byte list \<Rightarrow> world \<Rightarrow> byte list \<Rightarrow> bool" where
  "capture_inv hdr g acc \<longleftrightarrow>
     rb_wf (buffer g)
     \<and> length (disk_file g) + length (rb_contents (buffer g)) \<le> length hdr + length acc
     \<and> (length (disk_file g) + length (rb_contents (buffer g)) = length hdr + length acc
          \<longrightarrow> disk_file g @ rb_contents (buffer g) = hdr @ acc)"

text \<open>
  A replay, as a sequence of turns: JACK invokes the playback callback for a period,
  with the port buffers to fill, or the disk reader takes a turn of its loop.
\<close>

datatype replay_event = Jack_playback nat "sample list list" | Disk_read

fun replay_turn :: "config \<Rightarrow> replay_event \<Rightarrow> world \<Rightarrow> world" where
  "replay_turn c (Jack_playback nframes bufs) g = fst (jack_playback_callback c nframes bufs g)"
| "replay_turn c Disk_read g = disk_read_step c g"

text \<open>
  No underrun occurs during the run: no turn changes the underrun counter.
\<close>

fun no_underrun :: "config \<Rightarrow> replay_event list \<Rightarrow> world \<Rightarrow> bool" where
  "no_underrun c [] g = True"
| "no_underrun c (e # es) g =
     (underruns (status (replay_turn c e g)) = underruns (status g)
      \<and> no_underrun c es (replay_turn c e g))"

text \<open>
  The signal that is replayed: what the callback leaves in the port buffers, period by
  period, each read frame-interleaved.
\<close>

fun replayed :: "config \<Rightarrow> replay_event list \<Rightarrow> world \<Rightarrow> sample list" where
  "replayed c [] g = []"
| "replayed c (Jack_playback nframes bufs # es) g =
     frame_interleaved (nat (ports c)) nframes (fst (snd (jack_playback_callback c nframes bufs g)))
       @ replayed c es (replay_turn c (Jack_playback nframes bufs) g)"
| "replayed c (Disk_read # es) g = replayed c es (replay_turn c Disk_read g)"

fun replay_frames_total :: "replay_event list \<Rightarrow> nat" where
  "replay_frames_total [] = 0"
| "replay_frames_total (Jack_playback nframes bufs # es) = nframes + replay_frames_total es"
| "replay_frames_total (Disk_read # es) = replay_frames_total es"

text \<open>
  The periods are below \<open>2 ^ 31\<close> frames and come with one buffer of that many samples
  for each port.
\<close>

fun replay_periods :: "config \<Rightarrow> replay_event list \<Rightarrow> bool" where
  "replay_periods c [] = True"
| "replay_periods c (Jack_playback nframes bufs # es) =
     (nframes < 2 ^ 31 \<and> port_buffers (nat (ports c)) nframes bufs \<and> replay_periods c es)"
| "replay_periods c (Disk_read # es) = replay_periods c es"

text \<open>What the disk reader can still bring: the file from its offset on, while it runs.\<close>

definition unread :: "world \<Rightarrow> byte list" where
  "unread g = (if disk_running g then drop (disk_offset g) (disk_file g) else [])"

text \<open>
  Ten ports: one frame is captured through a ring buffer of 64 bytes, with a header
  write and a data write that take all their bytes, and replayed with a block size of 41
  bytes, the length of what the file holds after the first six bytes.
\<close>

definition ten_ports :: config where
  "ten_ports = initial_config\<lparr>ports := 10\<rparr>"

definition ten_ports_replay :: config where
  "ten_ports_replay = initial_config\<lparr>ports := 10, blocksize := 41\<rparr>"

definition ten_buffers :: "sample list list" where
  "ten_buffers = replicate 10 [Sample 1 2 3 4]"

definition ten_capture_events :: "capture_event list" where
  "ten_capture_events = [Jack_capture 1 ten_buffers, Disk_write (Io_bytes 40)]"

definition ten_capture_start :: world where
  "ten_capture_start = disk_write_start ten_ports True (Io_bytes 7)
     ((initial_world initial_config [])\<lparr>buffer := jack_ringbuffer_create 64\<rparr>)"

definition ten_replay_events :: "replay_event list" where
  "ten_replay_events = [Disk_read, Jack_playback 1 (replicate 10 [zero_sample])]"

definition ten_replay_start :: world where
  "ten_replay_start = disk_read_start ten_ports_replay True
     ((initial_world initial_config (disk_file (capture_run ten_ports ten_capture_events ten_capture_start)))
        \<lparr>buffer := jack_ringbuffer_create 64\<rparr>)"

text \<open>
  One port: one frame is captured through a ring buffer of 4 bytes and replayed.
\<close>

definition one_port :: config where
  "one_port = initial_config\<lparr>ports := 1\<rparr>"

definition one_capture_events :: "capture_event list" where
  "one_capture_events = [Jack_capture 1 [[Sample 1 2 3 4]], Disk_write (Io_bytes 4)]"

definition one_replay_events :: "replay_event list" where
  "one_replay_events = [Disk_read, Jack_playback 1 [[zero_sample]]]"

definition small_world :: "byte list \<Rightarrow> world" where
  "small_world file = (initial_world initial_config file)\<lparr>buffer := jack_ringbuffer_create 4\<rparr>"

section \<open>The ring buffer is a queue of bytes\<close>

lemma length_rb_store [simp]: "length (rb_store buf p bs) = length buf"
  by (induction bs arbitrary: buf p) simp_all

lemma mod_shift_neq:
  fixes p d C :: nat
  assumes "0 < d" "d < C"
  shows "(p + d) mod C \<noteq> p mod C"
proof
  assume "(p + d) mod C = p mod C"
  then have "C dvd (p + d) - p"
    using mod_eq_dvd_iff_nat [of p "p + d" C] by simp
  then have "C dvd d" by simp
  then have "C \<le> d" using assms(1) by (rule_tac dvd_imp_le) simp_all
  then show False using assms(2) by simp
qed

lemma rb_store_other:
  "\<forall>j<length bs. (p + j) mod length buf \<noteq> q \<Longrightarrow> rb_store buf p bs ! q = buf ! q"
proof (induction bs arbitrary: buf p)
  case Nil
  then show ?case by simp
next
  case (Cons b bs)
  have here: "p mod length buf \<noteq> q"
    using Cons.prems by (auto dest: spec [of _ 0])
  have later: "\<forall>j<length bs. (Suc p + j) mod length (buf[p mod length buf := b]) \<noteq> q"
    using Cons.prems by (auto dest: spec [of _ "Suc j" for j])
  show ?case
    using Cons.IH [OF later] here by simp
qed

lemma rb_store_nth:
  "length bs \<le> length buf \<Longrightarrow> j < length bs \<Longrightarrow>
     rb_store buf p bs ! ((p + j) mod length buf) = bs ! j"
proof (induction bs arbitrary: buf p j)
  case Nil
  then show ?case by simp
next
  case (Cons b bs)
  let ?C = "length buf"
  have C: "0 < ?C" using Cons.prems by auto
  show ?case
  proof (cases j)
    case 0
    have "\<forall>i<length bs. (Suc p + i) mod length (buf[p mod ?C := b]) \<noteq> p mod ?C"
    proof (intro allI impI)
      fix i assume "i < length bs"
      then have "0 < Suc i" "Suc i < ?C" using Cons.prems by auto
      from mod_shift_neq [OF this, of p]
      show "(Suc p + i) mod length (buf[p mod ?C := b]) \<noteq> p mod ?C" by simp
    qed
    from rb_store_other [OF this]
    show ?thesis using 0 C by simp
  next
    case (Suc j')
    have "rb_store (buf[p mod ?C := b]) (Suc p) bs ! ((Suc p + j') mod length (buf[p mod ?C := b])) = bs ! j'"
      using Cons.prems Suc by (intro Cons.IH) auto
    then show ?thesis using Suc by simp
  qed
qed

lemma rb_span_append:
  "p \<le> q \<Longrightarrow> q \<le> r \<Longrightarrow> rb_span buf p r = rb_span buf p q @ rb_span buf q r"
proof -
  assume "p \<le> q" "q \<le> r"
  then have "[p..<r] = [p..<q] @ [q..<r]"
    using upt_add_eq_append [of p q "r - q"] by simp
  then show ?thesis by (simp add: rb_span_def)
qed

lemma length_rb_span [simp]: "length (rb_span buf p q) = q - p"
  by (simp add: rb_span_def)

lemma rb_span_store_old:
  assumes "r \<le> w" "w - r + length bs \<le> length buf"
  shows "rb_span (rb_store buf w bs) r w = rb_span buf r w"
proof -
  have "rb_store buf w bs ! (k mod length buf) = buf ! (k mod length buf)"
    if k: "r \<le> k" "k < w" for k
  proof (rule rb_store_other, intro allI impI)
    fix j assume j: "j < length bs"
    have "0 < w + j - k" "w + j - k < length buf" using k j assms by auto
    from mod_shift_neq [OF this, of k]
    show "(w + j) mod length buf \<noteq> k mod length buf" using k by simp
  qed
  then show ?thesis by (simp add: rb_span_def)
qed

lemma rb_span_store_new:
  assumes "length bs \<le> length buf"
  shows "rb_span (rb_store buf w bs) w (w + length bs) = bs"
proof (rule nth_equalityI)
  show "length (rb_span (rb_store buf w bs) w (w + length bs)) = length bs" by simp
next
  fix i assume "i < length (rb_span (rb_store buf w bs) w (w + length bs))"
  then have i: "i < length bs" by simp
  then show "rb_span (rb_store buf w bs) w (w + length bs) ! i = bs ! i"
    using rb_store_nth [OF assms i, of w] by (simp add: rb_span_def)
qed

lemma rb_write_contents:
  assumes "rb_wf rb" "length bs \<le> jack_ringbuffer_write_space rb"
  shows "rb_contents (fst (jack_ringbuffer_write rb bs)) = rb_contents rb @ bs"
proof -
  let ?r = "rb_read_ptr rb" and ?w = "rb_write_ptr rb" and ?buf = "rb_buf rb"
  have le: "?r \<le> ?w" and fit: "?w - ?r + length bs \<le> length ?buf"
    using assms by (auto simp: rb_wf_def jack_ringbuffer_write_space_def jack_ringbuffer_read_space_def)
  have "rb_span (rb_store ?buf ?w bs) ?r (?w + length bs)
      = rb_span (rb_store ?buf ?w bs) ?r ?w @ rb_span (rb_store ?buf ?w bs) ?w (?w + length bs)"
    using le by (intro rb_span_append) simp_all
  also have "\<dots> = rb_span ?buf ?r ?w @ bs"
    using rb_span_store_old [OF le fit] rb_span_store_new [of bs ?buf ?w] fit by simp
  finally show ?thesis
    using assms(2) by (simp add: jack_ringbuffer_write_def rb_contents_def Let_def)
qed

lemma rb_write_wf:
  "rb_wf rb \<Longrightarrow> rb_wf (fst (jack_ringbuffer_write rb bs))"
  by (auto simp: rb_wf_def jack_ringbuffer_write_def jack_ringbuffer_write_space_def
      jack_ringbuffer_read_space_def Let_def)

lemma rb_write_ptrs:
  "rb_write_ptr (fst (jack_ringbuffer_write rb bs))
     = rb_write_ptr rb + min (length bs) (jack_ringbuffer_write_space rb)"
  "rb_read_ptr (fst (jack_ringbuffer_write rb bs)) = rb_read_ptr rb"
  "length (rb_buf (fst (jack_ringbuffer_write rb bs))) = length (rb_buf rb)"
  by (simp_all add: jack_ringbuffer_write_def Let_def)

lemma length_rb_contents: "length (rb_contents rb) = jack_ringbuffer_read_space rb"
  by (simp add: rb_contents_def jack_ringbuffer_read_space_def)

lemma rb_span_take: "n \<le> q - p \<Longrightarrow> take n (rb_span buf p q) = rb_span buf p (p + n)"
  by (cases "n = 0") (simp_all add: rb_span_def take_map)

lemma rb_span_drop: "drop n (rb_span buf p q) = rb_span buf (p + n) q"
  by (simp add: rb_span_def drop_map)

lemma rb_read_bytes:
  "snd (jack_ringbuffer_read rb cnt) = take cnt (rb_contents rb)"
proof -
  let ?n = "min cnt (jack_ringbuffer_read_space rb)"
  have "take cnt (rb_contents rb) = take ?n (rb_contents rb)"
    using length_rb_contents [of rb] by (simp add: min_def)
  also have "\<dots> = rb_span (rb_buf rb) (rb_read_ptr rb) (rb_read_ptr rb + ?n)"
    unfolding rb_contents_def
    by (rule rb_span_take) (simp add: jack_ringbuffer_read_space_def)
  finally show ?thesis by (simp add: jack_ringbuffer_read_def Let_def)
qed

lemma rb_read_contents:
  "rb_contents (fst (jack_ringbuffer_read rb cnt)) = drop cnt (rb_contents rb)"
proof -
  let ?n = "min cnt (jack_ringbuffer_read_space rb)"
  have "drop cnt (rb_contents rb) = drop ?n (rb_contents rb)"
    using length_rb_contents [of rb] by (simp add: min_def)
  then show ?thesis
    by (simp add: jack_ringbuffer_read_def Let_def rb_contents_def rb_span_drop)
qed

lemma rb_read_wf: "rb_wf rb \<Longrightarrow> rb_wf (fst (jack_ringbuffer_read rb cnt))"
  by (auto simp: rb_wf_def jack_ringbuffer_read_def jack_ringbuffer_read_space_def Let_def)

section \<open>The loops of the callbacks\<close>

lemma length_sample_bytes [simp]: "length (sample_bytes s) = 4"
  by (cases s) simp

lemma length_samples_bytes [simp]: "length (samples_bytes xs) = 4 * length xs"
  by (induction xs) (simp_all add: samples_bytes_def)

lemma samples_bytes_append [simp]: "samples_bytes (xs @ ys) = samples_bytes xs @ samples_bytes ys"
  by (simp add: samples_bytes_def)

lemma required_bytes_nowrap:
  assumes "nframes < 2 ^ 31" "0 \<le> n" "n \<le> 32"
  shows "required_bytes nframes n = nframes * nat n * 4"
proof -
  have n: "size_t_of_int n = nat n"
    using assms by (simp add: size_t_of_int_def)
  have "nat n \<le> 32" using assms by simp
  then have "nframes * 4 * nat n \<le> nframes * 4 * 32" by simp
  also have "\<dots> < 2 ^ 31 * 4 * 32" using assms(1) by simp
  finally have "nframes * 4 * nat n < 2 ^ 64" by simp
  then show ?thesis
    by (simp add: required_bytes_def n sizeof_sample_def mult_ac)
qed

lemma rb_write_space_after:
  assumes "rb_wf rb"
  shows "jack_ringbuffer_write_space (fst (jack_ringbuffer_write rb bs))
           = jack_ringbuffer_write_space rb - min (length bs) (jack_ringbuffer_write_space rb)"
  using assms
  by (auto simp: rb_wf_def jack_ringbuffer_write_def jack_ringbuffer_write_space_def
      jack_ringbuffer_read_space_def Let_def)

text \<open>Writing a run of samples that fits.\<close>

lemma write_samples:
  assumes "rb_wf rb" "4 * length xs \<le> jack_ringbuffer_write_space rb"
  shows "rb_wf (fold (\<lambda>x rb. fst (jack_ringbuffer_write rb (sample_bytes (h x)))) xs rb)
    \<and> rb_contents (fold (\<lambda>x rb. fst (jack_ringbuffer_write rb (sample_bytes (h x)))) xs rb)
        = rb_contents rb @ samples_bytes (map h xs)
    \<and> rb_write_ptr (fold (\<lambda>x rb. fst (jack_ringbuffer_write rb (sample_bytes (h x)))) xs rb)
        = rb_write_ptr rb + 4 * length xs
    \<and> rb_read_ptr (fold (\<lambda>x rb. fst (jack_ringbuffer_write rb (sample_bytes (h x)))) xs rb)
        = rb_read_ptr rb
    \<and> length (rb_buf (fold (\<lambda>x rb. fst (jack_ringbuffer_write rb (sample_bytes (h x)))) xs rb))
        = length (rb_buf rb)"
  using assms
proof (induction xs arbitrary: rb)
  case Nil
  then show ?case by (simp add: samples_bytes_def)
next
  case (Cons x xs)
  let ?rb = "fst (jack_ringbuffer_write rb (sample_bytes (h x)))"
  have fit: "length (sample_bytes (h x)) \<le> jack_ringbuffer_write_space rb"
    using Cons.prems by simp
  have wf: "rb_wf ?rb" using Cons.prems(1) by (rule rb_write_wf)
  have sp: "4 * length xs \<le> jack_ringbuffer_write_space ?rb"
    using Cons.prems fit by (simp add: rb_write_space_after)
  have c: "rb_contents ?rb = rb_contents rb @ sample_bytes (h x)"
    using Cons.prems(1) fit by (rule rb_write_contents)
  have p: "rb_write_ptr ?rb = rb_write_ptr rb + 4" "rb_read_ptr ?rb = rb_read_ptr rb"
    "length (rb_buf ?rb) = length (rb_buf rb)"
    using fit by (simp_all add: rb_write_ptrs)
  show ?case
    using Cons.IH [OF wf sp] c p by (simp add: samples_bytes_def)
qed

lemma capture_frame_spec:
  assumes "rb_wf rb" "4 * nat n \<le> jack_ringbuffer_write_space rb"
  shows "rb_wf (capture_frame bufs n f rb)
    \<and> rb_contents (capture_frame bufs n f rb)
        = rb_contents rb @ samples_bytes (map (\<lambda>i. bufs ! i ! f) [0..<nat n])
    \<and> rb_write_ptr (capture_frame bufs n f rb) = rb_write_ptr rb + 4 * nat n
    \<and> rb_read_ptr (capture_frame bufs n f rb) = rb_read_ptr rb
    \<and> length (rb_buf (capture_frame bufs n f rb)) = length (rb_buf rb)"
  using write_samples [of rb "[0..<nat n]" "\<lambda>i. bufs ! i ! f"] assms
  by (simp add: capture_frame_def)

lemma write_space_ptrs:
  "jack_ringbuffer_write_space rb = length (rb_buf rb) - (rb_write_ptr rb - rb_read_ptr rb)"
  by (simp add: jack_ringbuffer_write_space_def jack_ringbuffer_read_space_def)

lemma capture_frames_gen:
  assumes "rb_wf rb" "4 * nat n * length fs \<le> jack_ringbuffer_write_space rb"
  shows "rb_wf (fold (capture_frame bufs n) fs rb)
    \<and> rb_contents (fold (capture_frame bufs n) fs rb)
        = rb_contents rb @ samples_bytes (concat (map (\<lambda>f. map (\<lambda>i. bufs ! i ! f) [0..<nat n]) fs))
    \<and> rb_write_ptr (fold (capture_frame bufs n) fs rb) = rb_write_ptr rb + 4 * nat n * length fs
    \<and> rb_read_ptr (fold (capture_frame bufs n) fs rb) = rb_read_ptr rb
    \<and> length (rb_buf (fold (capture_frame bufs n) fs rb)) = length (rb_buf rb)"
  using assms
proof (induction fs arbitrary: rb)
  case Nil
  then show ?case by (simp add: samples_bytes_def)
next
  case (Cons f fs)
  let ?rb = "capture_frame bufs n f rb"
  have one: "4 * nat n \<le> jack_ringbuffer_write_space rb"
    using Cons.prems(2) by (simp add: algebra_simps)
  note s = capture_frame_spec [OF Cons.prems(1) one, of bufs f]
  have wf: "rb_wf ?rb" using s by simp
  have "rb_read_ptr rb \<le> rb_write_ptr rb" using Cons.prems(1) by (simp add: rb_wf_def)
  then have "jack_ringbuffer_write_space ?rb = jack_ringbuffer_write_space rb - 4 * nat n"
    using s by (simp add: write_space_ptrs)
  then have sp: "4 * nat n * length fs \<le> jack_ringbuffer_write_space ?rb"
    using Cons.prems(2) by (simp add: algebra_simps)
  show ?case
    using Cons.IH [OF wf sp] s by (simp add: algebra_simps)
qed

lemma capture_frames_spec:
  assumes "rb_wf rb" "nframes * nat n * 4 \<le> jack_ringbuffer_write_space rb"
  shows "rb_wf (capture_frames bufs n nframes rb)
    \<and> rb_contents (capture_frames bufs n nframes rb)
        = rb_contents rb @ samples_bytes (frame_interleaved (nat n) nframes bufs)
    \<and> rb_write_ptr (capture_frames bufs n nframes rb) = rb_write_ptr rb + nframes * nat n * 4
    \<and> rb_read_ptr (capture_frames bufs n nframes rb) = rb_read_ptr rb
    \<and> length (rb_buf (capture_frames bufs n nframes rb)) = length (rb_buf rb)"
  using capture_frames_gen [of rb n "[0..<nframes]" bufs] assms
  by (simp add: capture_frames_def frame_interleaved_def mult_ac)

lemma store_sample_bytes: "length bs = 4 \<Longrightarrow> sample_bytes (store_sample bs s) = bs"
proof -
  assume "length bs = 4"
  then obtain a b c d where "bs = [a, b, c, d]"
    by (cases bs; cases "tl bs"; cases "tl (tl bs)"; cases "tl (tl (tl bs))") auto
  then show ?thesis by simp
qed

lemma playback_frame_ports:
  assumes "n \<le> length bufs" "\<forall>i<n. f < length (bufs ! i)"
    "4 * n \<le> jack_ringbuffer_read_space rb"
  shows "case fold (playback_step f) [0..<n] (rb, bufs) of (rb', bufs') \<Rightarrow>
      rb_contents rb' = drop (4 * n) (rb_contents rb)
    \<and> rb_read_ptr rb' = rb_read_ptr rb + 4 * n
    \<and> rb_write_ptr rb' = rb_write_ptr rb
    \<and> rb_buf rb' = rb_buf rb
    \<and> length bufs' = length bufs
    \<and> (\<forall>i. length (bufs' ! i) = length (bufs ! i))
    \<and> (\<forall>i<n. sample_bytes (bufs' ! i ! f) = take 4 (drop (4 * i) (rb_contents rb)))
    \<and> (\<forall>i f'. \<not> (i < n \<and> f' = f) \<longrightarrow> bufs' ! i ! f' = bufs ! i ! f')"
  using assms
proof (induction n)
  case 0
  then show ?case by simp
next
  case (Suc n)
  obtain rb1 bufs1 where st: "fold (playback_step f) [0..<n] (rb, bufs) = (rb1, bufs1)"
    by (cases "fold (playback_step f) [0..<n] (rb, bufs)")
  from Suc.IH st Suc.prems
  have ih: "rb_contents rb1 = drop (4 * n) (rb_contents rb)"
    "rb_read_ptr rb1 = rb_read_ptr rb + 4 * n"
    "rb_write_ptr rb1 = rb_write_ptr rb"
    "rb_buf rb1 = rb_buf rb"
    "length bufs1 = length bufs"
    "\<forall>i. length (bufs1 ! i) = length (bufs ! i)"
    "\<forall>i<n. sample_bytes (bufs1 ! i ! f) = take 4 (drop (4 * i) (rb_contents rb))"
    "\<forall>i f'. \<not> (i < n \<and> f' = f) \<longrightarrow> bufs1 ! i ! f' = bufs ! i ! f'"
    by auto
  obtain rb2 bs where rd: "jack_ringbuffer_read rb1 sizeof_sample = (rb2, bs)"
    by (cases "jack_ringbuffer_read rb1 sizeof_sample")
  have bs: "bs = take 4 (drop (4 * n) (rb_contents rb))"
    using rb_read_bytes [of rb1 sizeof_sample] rd ih(1) by (simp add: sizeof_sample_def)
  have len: "length bs = 4"
    using Suc.prems(3) by (simp add: bs length_rb_contents)
  have c2: "rb_contents rb2 = drop (4 * Suc n) (rb_contents rb)"
    using rb_read_contents [of rb1 sizeof_sample] rd ih(1) by (simp add: sizeof_sample_def add.commute)
  have sp1: "4 \<le> jack_ringbuffer_read_space rb1"
    using Suc.prems(3) ih(2,3) by (simp add: jack_ringbuffer_read_space_def)
  have p2: "rb_read_ptr rb2 = rb_read_ptr rb + 4 * Suc n" "rb_write_ptr rb2 = rb_write_ptr rb"
    "rb_buf rb2 = rb_buf rb"
    using rd sp1 ih(2,3,4) by (auto simp: jack_ringbuffer_read_def Let_def sizeof_sample_def)
  let ?bufs2 = "bufs1[n := (bufs1 ! n)[f := store_sample bs (bufs1 ! n ! f)]]"
  have n: "n < length bufs1" "f < length (bufs1 ! n)"
    using Suc.prems ih(5,6) by auto
  have step: "fold (playback_step f) [0..<Suc n] (rb, bufs) = (rb2, ?bufs2)"
    using st rd by (simp add: playback_step_def)
  have new: "sample_bytes (?bufs2 ! n ! f) = take 4 (drop (4 * n) (rb_contents rb))"
    using n len by (simp add: store_sample_bytes bs)
  have old: "\<forall>i<n. sample_bytes (?bufs2 ! i ! f) = take 4 (drop (4 * i) (rb_contents rb))"
    using ih(7) by simp
  have a: "\<forall>i<Suc n. sample_bytes (?bufs2 ! i ! f) = take 4 (drop (4 * i) (rb_contents rb))"
    using new old by (simp add: less_Suc_eq)
  have b: "\<forall>i f'. \<not> (i < Suc n \<and> f' = f) \<longrightarrow> ?bufs2 ! i ! f' = bufs ! i ! f'"
  proof (intro allI impI)
    fix i f' assume h: "\<not> (i < Suc n \<and> f' = f)"
    show "?bufs2 ! i ! f' = bufs ! i ! f'"
    proof (cases "i = n")
      case True
      then have "f' \<noteq> f" using h by simp
      then show ?thesis using True n ih(8) by simp
    next
      case False
      then show ?thesis using h ih(8) by simp
    qed
  qed
  have l: "\<forall>i. length (?bufs2 ! i) = length (bufs ! i)"
  proof
    fix i show "length (?bufs2 ! i) = length (bufs ! i)"
      using ih(6) n by (cases "i = n") simp_all
  qed
  show ?case
    unfolding step using c2 p2 ih(5) a b l by simp
qed

lemma interleaved_index:
  "concat (map (\<lambda>f. map (\<lambda>i. h f i) [0..<n]) [0..<m]) = map (\<lambda>k. h (k div n) (k mod n)) [0..<m * n]"
proof (induction m)
  case 0
  then show ?case by simp
next
  case (Suc m)
  have split: "[0..<Suc m * n] = [0..<m * n] @ [m * n..<m * n + n]"
    using upt_add_eq_append [of 0 "m * n" n] by (simp add: add.commute)
  have last: "map (\<lambda>k. h (k div n) (k mod n)) [m * n..<m * n + n] = map (\<lambda>i. h m i) [0..<n]"
    by (rule nth_equalityI) simp_all
  have "concat (map (\<lambda>f. map (\<lambda>i. h f i) [0..<n]) [0..<Suc m])
      = concat (map (\<lambda>f. map (\<lambda>i. h f i) [0..<n]) [0..<m]) @ map (\<lambda>i. h m i) [0..<n]"
    by simp
  also have "\<dots> = map (\<lambda>k. h (k div n) (k mod n)) [0..<m * n]
      @ map (\<lambda>k. h (k div n) (k mod n)) [m * n..<m * n + n]"
    by (simp only: Suc.IH last)
  also have "\<dots> = map (\<lambda>k. h (k div n) (k mod n)) [0..<Suc m * n]"
    by (simp only: split map_append)
  finally show ?case .
qed

lemma concat_chunks:
  "4 * m \<le> length cs \<Longrightarrow> concat (map (\<lambda>k. take 4 (drop (4 * k) cs)) [0..<m]) = take (4 * m) cs"
proof (induction m)
  case 0
  then show ?case by simp
next
  case (Suc m)
  have "take (4 * Suc m) cs = take (4 * m) cs @ take 4 (drop (4 * m) cs)"
    using take_add [of "4 * m" 4 cs] by (simp add: add.commute)
  then show ?case using Suc by simp
qed

lemma frame_interleaved_bytes:
  assumes "\<forall>f<nframes. \<forall>i<n. sample_bytes (bufs ! i ! f) = take 4 (drop (4 * (f * n + i)) cs)"
    "4 * (nframes * n) \<le> length cs"
  shows "samples_bytes (frame_interleaved n nframes bufs) = take (4 * (nframes * n)) cs"
proof -
  have "frame_interleaved n nframes bufs = map (\<lambda>k. bufs ! (k mod n) ! (k div n)) [0..<nframes * n]"
    unfolding frame_interleaved_def by (rule interleaved_index)
  then have "samples_bytes (frame_interleaved n nframes bufs)
      = concat (map (\<lambda>k. sample_bytes (bufs ! (k mod n) ! (k div n))) [0..<nframes * n])"
    by (simp add: samples_bytes_def comp_def)
  also have "\<dots> = concat (map (\<lambda>k. take 4 (drop (4 * k) cs)) [0..<nframes * n])"
  proof (rule arg_cong [where f = concat], rule map_cong [OF refl])
    fix k assume "k \<in> set [0..<nframes * n]"
    then have k: "k < nframes * n" by simp
    then have n: "0 < n" by (cases n) simp_all
    have "k div n < nframes" using k n by (simp add: less_mult_imp_div_less)
    moreover have "k mod n < n" using n by simp
    ultimately have "sample_bytes (bufs ! (k mod n) ! (k div n))
        = take 4 (drop (4 * (k div n * n + k mod n)) cs)"
      using assms(1) by blast
    then show "sample_bytes (bufs ! (k mod n) ! (k div n)) = take 4 (drop (4 * k) cs)"
      by simp
  qed
  also have "\<dots> = take (4 * (nframes * n)) cs"
    using assms(2) by (rule concat_chunks)
  finally show ?thesis .
qed

lemma playback_frames_ports:
  assumes "n \<le> length bufs" "\<forall>i<n. m \<le> length (bufs ! i)"
    "4 * (m * n) \<le> jack_ringbuffer_read_space rb"
  shows "case fold (\<lambda>f. fold (playback_step f) [0..<n]) [0..<m] (rb, bufs) of (rb', bufs') \<Rightarrow>
      rb_contents rb' = drop (4 * (m * n)) (rb_contents rb)
    \<and> rb_read_ptr rb' = rb_read_ptr rb + 4 * (m * n)
    \<and> rb_write_ptr rb' = rb_write_ptr rb
    \<and> rb_buf rb' = rb_buf rb
    \<and> length bufs' = length bufs
    \<and> (\<forall>i. length (bufs' ! i) = length (bufs ! i))
    \<and> (\<forall>f<m. \<forall>i<n. sample_bytes (bufs' ! i ! f) = take 4 (drop (4 * (f * n + i)) (rb_contents rb)))
    \<and> (\<forall>i f. \<not> (i < n \<and> f < m) \<longrightarrow> bufs' ! i ! f = bufs ! i ! f)"
  using assms
proof (induction m)
  case 0
  then show ?case by simp
next
  case (Suc m)
  obtain rb1 bufs1 where st:
    "fold (\<lambda>f. fold (playback_step f) [0..<n]) [0..<m] (rb, bufs) = (rb1, bufs1)"
    by (cases "fold (\<lambda>f. fold (playback_step f) [0..<n]) [0..<m] (rb, bufs)")
  have le: "4 * (m * n) \<le> jack_ringbuffer_read_space rb"
    using Suc.prems(3) by simp
  have w: "\<forall>i<n. m \<le> length (bufs ! i)"
    using Suc.prems(2) by (auto dest: Suc_leD)
  from Suc.IH [OF Suc.prems(1) w le] st
  have ih: "rb_contents rb1 = drop (4 * (m * n)) (rb_contents rb)"
    "rb_read_ptr rb1 = rb_read_ptr rb + 4 * (m * n)"
    "rb_write_ptr rb1 = rb_write_ptr rb"
    "rb_buf rb1 = rb_buf rb"
    "length bufs1 = length bufs"
    "\<forall>i. length (bufs1 ! i) = length (bufs ! i)"
    "\<forall>f<m. \<forall>i<n. sample_bytes (bufs1 ! i ! f) = take 4 (drop (4 * (f * n + i)) (rb_contents rb))"
    "\<forall>i f. \<not> (i < n \<and> f < m) \<longrightarrow> bufs1 ! i ! f = bufs ! i ! f"
    by auto
  obtain rb2 bufs2 where fr: "fold (playback_step m) [0..<n] (rb1, bufs1) = (rb2, bufs2)"
    by (cases "fold (playback_step m) [0..<n] (rb1, bufs1)")
  have p1: "n \<le> length bufs1" "\<forall>i<n. m < length (bufs1 ! i)"
    using Suc.prems(1,2) ih(5,6) by (auto simp: Suc_le_eq)
  have p2: "4 * n \<le> jack_ringbuffer_read_space rb1"
    using Suc.prems(3) ih(2,3) by (simp add: jack_ringbuffer_read_space_def)
  from playback_frame_ports [OF p1 p2] fr
  have s: "rb_contents rb2 = drop (4 * n) (rb_contents rb1)"
    "rb_read_ptr rb2 = rb_read_ptr rb1 + 4 * n"
    "rb_write_ptr rb2 = rb_write_ptr rb1"
    "rb_buf rb2 = rb_buf rb1"
    "length bufs2 = length bufs1"
    "\<forall>i. length (bufs2 ! i) = length (bufs1 ! i)"
    "\<forall>i<n. sample_bytes (bufs2 ! i ! m) = take 4 (drop (4 * i) (rb_contents rb1))"
    "\<forall>i f'. \<not> (i < n \<and> f' = m) \<longrightarrow> bufs2 ! i ! f' = bufs1 ! i ! f'"
    by auto
  have step: "fold (\<lambda>f. fold (playback_step f) [0..<n]) [0..<Suc m] (rb, bufs) = (rb2, bufs2)"
    using st fr by simp
  have c: "rb_contents rb2 = drop (4 * (Suc m * n)) (rb_contents rb)"
    using s(1) ih(1) by (simp add: algebra_simps)
  have a: "\<forall>f<Suc m. \<forall>i<n. sample_bytes (bufs2 ! i ! f)
      = take 4 (drop (4 * (f * n + i)) (rb_contents rb))"
  proof (intro allI impI)
    fix f i assume f: "f < Suc m" and i: "i < n"
    show "sample_bytes (bufs2 ! i ! f) = take 4 (drop (4 * (f * n + i)) (rb_contents rb))"
    proof (cases "f = m")
      case True
      then show ?thesis using s(7) i ih(1) by (simp add: algebra_simps)
    next
      case False
      then have "f < m" using f by simp
      then show ?thesis using s(8) ih(7) i False by simp
    qed
  qed
  have b: "\<forall>i f. \<not> (i < n \<and> f < Suc m) \<longrightarrow> bufs2 ! i ! f = bufs ! i ! f"
    using s(8) ih(8) by (metis less_Suc_eq)
  show ?case
    unfolding step using c s(2,3,4,5,6) ih(2,3,4,5,6) a b by (simp add: algebra_simps)
qed

lemma playback_frames_spec:
  assumes "port_buffers (nat n) nframes bufs" "nframes * nat n * 4 \<le> jack_ringbuffer_read_space rb"
  shows "case playback_frames n nframes (rb, bufs) of (rb', bufs') \<Rightarrow>
      samples_bytes (frame_interleaved (nat n) nframes bufs')
        = take (nframes * nat n * 4) (rb_contents rb)
    \<and> rb_contents rb' = drop (nframes * nat n * 4) (rb_contents rb)
    \<and> rb_read_ptr rb' = rb_read_ptr rb + nframes * nat n * 4
    \<and> rb_write_ptr rb' = rb_write_ptr rb
    \<and> rb_buf rb' = rb_buf rb
    \<and> port_buffers (nat n) nframes bufs'"
proof -
  have pf: "playback_frames n nframes = fold (\<lambda>f. fold (playback_step f) [0..<nat n]) [0..<nframes]"
  proof -
    have "playback_frame n = (\<lambda>f. fold (playback_step f) [0..<nat n])"
      by (rule ext) (simp add: playback_frame_def)
    then show ?thesis by (simp add: playback_frames_def)
  qed
  obtain rb' bufs' where r: "playback_frames n nframes (rb, bufs) = (rb', bufs')"
    by (cases "playback_frames n nframes (rb, bufs)")
  have l: "nat n \<le> length bufs" "\<forall>i<nat n. nframes \<le> length (bufs ! i)"
    using assms(1) by (simp_all add: port_buffers_def list_all_length)
  have sp: "4 * (nframes * nat n) \<le> jack_ringbuffer_read_space rb"
    using assms(2) by (simp add: mult_ac)
  from playback_frames_ports [OF l sp] r
  have s: "rb_contents rb' = drop (4 * (nframes * nat n)) (rb_contents rb)"
    "rb_read_ptr rb' = rb_read_ptr rb + 4 * (nframes * nat n)"
    "rb_write_ptr rb' = rb_write_ptr rb"
    "rb_buf rb' = rb_buf rb"
    "length bufs' = length bufs"
    "\<forall>i. length (bufs' ! i) = length (bufs ! i)"
    "\<forall>f<nframes. \<forall>i<nat n. sample_bytes (bufs' ! i ! f)
        = take 4 (drop (4 * (f * nat n + i)) (rb_contents rb))"
    unfolding pf by auto
  have "4 * (nframes * nat n) \<le> length (rb_contents rb)"
    using sp by (simp add: length_rb_contents)
  from frame_interleaved_bytes [OF s(7) this]
  have a: "samples_bytes (frame_interleaved (nat n) nframes bufs')
      = take (4 * (nframes * nat n)) (rb_contents rb)" .
  have b: "port_buffers (nat n) nframes bufs'"
    using assms(1) s(5,6) by (simp add: port_buffers_def list_all_length)
  show ?thesis
    unfolding r using a b s(1,2,3,4) by (simp add: mult_ac)
qed

lemma zero_fill_upto:
  assumes "m \<le> length bufs" "list_all (\<lambda>b. length b = nframes) bufs"
  shows "length (fold (\<lambda>i bs. bs[i := memset_zero (bs ! i) nframes]) [0..<m] bufs) = length bufs
    \<and> (\<forall>i<length bufs. fold (\<lambda>i bs. bs[i := memset_zero (bs ! i) nframes]) [0..<m] bufs ! i
          = (if i < m then replicate nframes zero_sample else bufs ! i))"
  using assms(1)
proof (induction m)
  case 0
  then show ?case by simp
next
  case (Suc m)
  let ?bs = "fold (\<lambda>i bs. bs[i := memset_zero (bs ! i) nframes]) [0..<m] bufs"
  have ih: "length ?bs = length bufs"
    "\<forall>i<length bufs. ?bs ! i = (if i < m then replicate nframes zero_sample else bufs ! i)"
    using Suc by simp_all
  have m: "m < length bufs" using Suc.prems by simp
  then have "length (?bs ! m) = nframes"
    using ih(2) assms(2) by (simp add: list_all_length)
  then have z: "memset_zero (?bs ! m) nframes = replicate nframes zero_sample"
    by (simp add: memset_zero_def)
  show ?case
    using ih m z by (simp add: nth_list_update less_Suc_eq)
qed

lemma zero_fill_ports:
  assumes "port_buffers n nframes bufs"
  shows "fold (\<lambda>i bs. bs[i := memset_zero (bs ! i) nframes]) [0..<n] bufs
           = replicate n (replicate nframes zero_sample)"
proof (rule nth_equalityI)
  have l: "n \<le> length bufs" "list_all (\<lambda>b. length b = nframes) bufs" "length bufs = n"
    using assms by (simp_all add: port_buffers_def)
  note z = zero_fill_upto [OF l(1,2)]
  show "length (fold (\<lambda>i bs. bs[i := memset_zero (bs ! i) nframes]) [0..<n] bufs)
      = length (replicate n (replicate nframes zero_sample))"
    using z l(3) by simp
  fix i assume "i < length (fold (\<lambda>i bs. bs[i := memset_zero (bs ! i) nframes]) [0..<n] bufs)"
  then have "i < n" using z l(3) by simp
  then show "fold (\<lambda>i bs. bs[i := memset_zero (bs ! i) nframes]) [0..<n] bufs ! i
      = replicate n (replicate nframes zero_sample) ! i"
    using z l(3) by simp
qed

text \<open>The two callbacks, branch by branch.\<close>

lemma capture_overflow:
  assumes "jack_ringbuffer_write_space (buffer g) < required_bytes nframes (ports cfg)"
  shows "jack_capture_callback cfg nframes bufs g
    = (g\<lparr>status := (status g)\<lparr>jack_calls := jack_calls (status g) + 1,
                               overflows := overflows (status g) + 1\<rparr>\<rparr>, 0)"
  using assms by (simp add: jack_capture_callback_def Let_def)

lemma capture_success:
  assumes "\<not> jack_ringbuffer_write_space (buffer g) < required_bytes nframes (ports cfg)"
  shows "jack_capture_callback cfg nframes bufs g
    = (signal_disk_thread (g\<lparr>status := (status g)\<lparr>jack_calls := jack_calls (status g) + 1\<rparr>,
         buffer := capture_frames bufs (ports cfg) nframes (buffer g)\<rparr>), 0)"
  using assms by (simp add: jack_capture_callback_def Let_def)

lemma signal_disk_thread_fields [simp]:
  "status (signal_disk_thread g) = status g"
  "buffer (signal_disk_thread g) = buffer g"
  "disk_mutex (signal_disk_thread g) = disk_mutex g"
  "disk_file (signal_disk_thread g) = disk_file g"
  "disk_offset (signal_disk_thread g) = disk_offset g"
  "disk_running (signal_disk_thread g) = disk_running g"
  by (simp_all add: signal_disk_thread_def)

lemma playback_underrun:
  assumes "jack_ringbuffer_read_space (buffer g) < required_bytes nframes (ports cfg)"
  shows "jack_playback_callback cfg nframes bufs g
    = ((if eof (status g) \<noteq> 0
        then g\<lparr>status := (status g)\<lparr>jack_calls := jack_calls (status g) + 1,
                                    underruns := underruns (status g) + 1, stop := 1\<rparr>,
               trace := trace g @ [Jack_deactivate]\<rparr>
        else g\<lparr>status := (status g)\<lparr>jack_calls := jack_calls (status g) + 1,
                                    underruns := underruns (status g) + 1\<rparr>\<rparr>),
       fold (\<lambda>i bs. bs[i := memset_zero (bs ! i) nframes]) [0..<nat (ports cfg)] bufs, 0)"
  using assms by (simp add: jack_playback_callback_def Let_def)

lemma playback_success:
  assumes "\<not> jack_ringbuffer_read_space (buffer g) < required_bytes nframes (ports cfg)"
  shows "jack_playback_callback cfg nframes bufs g
    = (signal_disk_thread (g\<lparr>status := (status g)\<lparr>jack_calls := jack_calls (status g) + 1\<rparr>,
         buffer := fst (playback_frames (ports cfg) nframes (buffer g, bufs))\<rparr>),
       snd (playback_frames (ports cfg) nframes (buffer g, bufs)), 0)"
  using assms by (simp add: jack_playback_callback_def Let_def split: prod.splits)

section \<open>The capture callback at the boundary\<close>

text \<open>
  Claim C3. For every invocation of the capture callback with \<open>F\<close> frames and \<open>N\<close>
  channels: if the writable space of the ring buffer is exactly \<open>F * N * 4\<close> bytes, the
  callback writes all \<open>F * N\<close> samples (the buffer then holds them after what it held, and
  the write cursor has moved by \<open>F * N * 4\<close>) and does not count an overflow; if the
  writable space is one byte less, it counts one overflow, leaves the ring buffer as it
  was, and still returns 0.
\<close>

theorem capture_boundary:
  assumes "rb_wf (buffer g)" "nframes < 2 ^ 31" "0 \<le> ports cfg" "ports cfg \<le> 32"
  shows "(jack_ringbuffer_write_space (buffer g) = nframes * nat (ports cfg) * sizeof_sample \<longrightarrow>
            rb_contents (buffer (fst (jack_capture_callback cfg nframes bufs g)))
              = rb_contents (buffer g)
                  @ samples_bytes (frame_interleaved (nat (ports cfg)) nframes bufs)
          \<and> rb_write_ptr (buffer (fst (jack_capture_callback cfg nframes bufs g)))
              = rb_write_ptr (buffer g) + nframes * nat (ports cfg) * sizeof_sample
          \<and> overflows (status (fst (jack_capture_callback cfg nframes bufs g)))
              = overflows (status g)
          \<and> snd (jack_capture_callback cfg nframes bufs g) = 0)
       \<and> (jack_ringbuffer_write_space (buffer g) + 1 = nframes * nat (ports cfg) * sizeof_sample \<longrightarrow>
            overflows (status (fst (jack_capture_callback cfg nframes bufs g)))
              = overflows (status g) + 1
          \<and> buffer (fst (jack_capture_callback cfg nframes bufs g)) = buffer g
          \<and> snd (jack_capture_callback cfg nframes bufs g) = 0)"
proof (intro conjI impI)
  note rq = required_bytes_nowrap [OF assms(2,3,4)]
  {
    assume exact: "jack_ringbuffer_write_space (buffer g) = nframes * nat (ports cfg) * sizeof_sample"
    then have ok: "\<not> jack_ringbuffer_write_space (buffer g) < required_bytes nframes (ports cfg)"
      by (simp add: rq sizeof_sample_def)
    have fit: "nframes * nat (ports cfg) * 4 \<le> jack_ringbuffer_write_space (buffer g)"
      using exact by (simp add: sizeof_sample_def)
    note s = capture_frames_spec [OF assms(1) fit, of bufs]
    show "rb_contents (buffer (fst (jack_capture_callback cfg nframes bufs g)))
        = rb_contents (buffer g) @ samples_bytes (frame_interleaved (nat (ports cfg)) nframes bufs)"
      using s by (simp add: capture_success [OF ok])
    show "rb_write_ptr (buffer (fst (jack_capture_callback cfg nframes bufs g)))
        = rb_write_ptr (buffer g) + nframes * nat (ports cfg) * sizeof_sample"
      using s by (simp add: capture_success [OF ok] sizeof_sample_def)
    show "overflows (status (fst (jack_capture_callback cfg nframes bufs g))) = overflows (status g)"
      by (simp add: capture_success [OF ok])
    show "snd (jack_capture_callback cfg nframes bufs g) = 0"
      by (simp add: capture_success [OF ok])
  }
  {
    assume less: "jack_ringbuffer_write_space (buffer g) + 1 = nframes * nat (ports cfg) * sizeof_sample"
    then have ov: "jack_ringbuffer_write_space (buffer g) < required_bytes nframes (ports cfg)"
      by (simp add: rq sizeof_sample_def)
    show "overflows (status (fst (jack_capture_callback cfg nframes bufs g)))
        = overflows (status g) + 1"
      by (simp add: capture_overflow [OF ov])
    show "buffer (fst (jack_capture_callback cfg nframes bufs g)) = buffer g"
      by (simp add: capture_overflow [OF ov])
    show "snd (jack_capture_callback cfg nframes bufs g) = 0"
      by (simp add: capture_overflow [OF ov])
  }
qed

theorem capture_boundary_witness:
  "rb_wf (jack_ringbuffer_create 16) \<and> (2::nat) < 2 ^ 31
   \<and> jack_ringbuffer_write_space (jack_ringbuffer_create 16) = 2 * nat 2 * sizeof_sample
   \<and> jack_ringbuffer_write_space (jack_ringbuffer_create 15) + 1 = 2 * nat 2 * sizeof_sample
   \<and> rb_write_ptr (buffer (fst (jack_capture_callback (initial_config\<lparr>ports := 2\<rparr>) 2 [[Sample 1 2 3 4, Sample 5 6 7 8], [Sample 9 10 11 12, Sample 13 14 15 16]]
        ((initial_world initial_config [])\<lparr>buffer := jack_ringbuffer_create 16\<rparr>)))) = 16
   \<and> overflows (status (fst (jack_capture_callback (initial_config\<lparr>ports := 2\<rparr>) 2 [[Sample 1 2 3 4, Sample 5 6 7 8], [Sample 9 10 11 12, Sample 13 14 15 16]]
        ((initial_world initial_config [])\<lparr>buffer := jack_ringbuffer_create 16\<rparr>)))) = 0
   \<and> overflows (status (fst (jack_capture_callback (initial_config\<lparr>ports := 2\<rparr>) 2 [[Sample 1 2 3 4, Sample 5 6 7 8], [Sample 9 10 11 12, Sample 13 14 15 16]]
        ((initial_world initial_config [])\<lparr>buffer := jack_ringbuffer_create 15\<rparr>)))) = 1
   \<and> buffer (fst (jack_capture_callback (initial_config\<lparr>ports := 2\<rparr>) 2 [[Sample 1 2 3 4, Sample 5 6 7 8], [Sample 9 10 11 12, Sample 13 14 15 16]]
        ((initial_world initial_config [])\<lparr>buffer := jack_ringbuffer_create 15\<rparr>)))
       = jack_ringbuffer_create 15"
  using capture_boundary [of "(initial_world initial_config [])\<lparr>buffer := jack_ringbuffer_create 16\<rparr>"
      2 "initial_config\<lparr>ports := 2\<rparr>"
      "[[Sample 1 2 3 4, Sample 5 6 7 8], [Sample 9 10 11 12, Sample 13 14 15 16]]"]
    capture_boundary [of "(initial_world initial_config [])\<lparr>buffer := jack_ringbuffer_create 15\<rparr>"
      2 "initial_config\<lparr>ports := 2\<rparr>"
      "[[Sample 1 2 3 4, Sample 5 6 7 8], [Sample 9 10 11 12, Sample 13 14 15 16]]"]
  by (simp add: rb_wf_def jack_ringbuffer_create_def jack_ringbuffer_write_space_def
      jack_ringbuffer_read_space_def sizeof_sample_def initial_world_def initial_status_def)

section \<open>Both callbacks move samples frame-interleaved\<close>

lemma frame_interleaved_nth:
  assumes "i < n" "f < nframes"
  shows "frame_interleaved n nframes bufs ! (f * n + i) = bufs ! i ! f"
    and "length (frame_interleaved n nframes bufs) = nframes * n"
proof -
  have eq: "frame_interleaved n nframes bufs
      = map (\<lambda>k. bufs ! (k mod n) ! (k div n)) [0..<nframes * n]"
    unfolding frame_interleaved_def by (rule interleaved_index)
  have "f * n + i < f * n + n" using assms(1) by simp
  also have "\<dots> = Suc f * n" by simp
  also have "\<dots> \<le> nframes * n" using assms(2) by (intro mult_le_mono1) simp
  finally have "f * n + i < nframes * n" .
  then show "frame_interleaved n nframes bufs ! (f * n + i) = bufs ! i ! f"
    using assms(1) by (simp add: eq)
  show "length (frame_interleaved n nframes bufs) = nframes * n"
    by (simp add: eq)
qed

text \<open>
  Claim C2. For every callback invocation with \<open>F\<close> frames and \<open>N\<close> channels that does
  not overflow or underrun, the samples are transferred frame-interleaved: the loops
  (frames outside, channels inside, one sample a step) put into the ring buffer, after
  what it held, the samples in the order \<open>frame_interleaved\<close>, where all channels'
  samples of frame \<open>i\<close> come before any sample of frame \<open>i + 1\<close>; and the playback loops
  take the bytes at the front of the ring buffer to the port buffers in the same order
  \<open>frame_interleaved\<close>.
\<close>

theorem callbacks_frame_interleaved:
  assumes "rb_wf (buffer g)" "nframes < 2 ^ 31" "0 \<le> ports cfg" "ports cfg \<le> 32"
    "port_buffers (nat (ports cfg)) nframes bufs"
  shows "(nframes * nat (ports cfg) * sizeof_sample \<le> jack_ringbuffer_write_space (buffer g) \<longrightarrow>
            rb_contents (buffer (fst (jack_capture_callback cfg nframes bufs g)))
              = rb_contents (buffer g)
                  @ samples_bytes (frame_interleaved (nat (ports cfg)) nframes bufs))
       \<and> (nframes * nat (ports cfg) * sizeof_sample \<le> jack_ringbuffer_read_space (buffer g) \<longrightarrow>
            samples_bytes (frame_interleaved (nat (ports cfg)) nframes
                (fst (snd (jack_playback_callback cfg nframes bufs g))))
              = take (nframes * nat (ports cfg) * sizeof_sample) (rb_contents (buffer g))
          \<and> rb_contents (buffer (fst (jack_playback_callback cfg nframes bufs g)))
              = drop (nframes * nat (ports cfg) * sizeof_sample) (rb_contents (buffer g)))"
proof (intro conjI impI)
  note rq = required_bytes_nowrap [OF assms(2,3,4)]
  {
    assume "nframes * nat (ports cfg) * sizeof_sample \<le> jack_ringbuffer_write_space (buffer g)"
    then have fit: "nframes * nat (ports cfg) * 4 \<le> jack_ringbuffer_write_space (buffer g)"
      and ok: "\<not> jack_ringbuffer_write_space (buffer g) < required_bytes nframes (ports cfg)"
      by (simp_all add: rq sizeof_sample_def)
    show "rb_contents (buffer (fst (jack_capture_callback cfg nframes bufs g)))
        = rb_contents (buffer g) @ samples_bytes (frame_interleaved (nat (ports cfg)) nframes bufs)"
      using capture_frames_spec [OF assms(1) fit, of bufs] by (simp add: capture_success [OF ok])
  }
  {
    assume "nframes * nat (ports cfg) * sizeof_sample \<le> jack_ringbuffer_read_space (buffer g)"
    then have fit: "nframes * nat (ports cfg) * 4 \<le> jack_ringbuffer_read_space (buffer g)"
      and ok: "\<not> jack_ringbuffer_read_space (buffer g) < required_bytes nframes (ports cfg)"
      by (simp_all add: rq sizeof_sample_def)
    note s = playback_frames_spec [OF assms(5) fit]
    show "samples_bytes (frame_interleaved (nat (ports cfg)) nframes
              (fst (snd (jack_playback_callback cfg nframes bufs g))))
        = take (nframes * nat (ports cfg) * sizeof_sample) (rb_contents (buffer g))"
      using s by (simp add: playback_success [OF ok] sizeof_sample_def split: prod.splits)
    show "rb_contents (buffer (fst (jack_playback_callback cfg nframes bufs g)))
        = drop (nframes * nat (ports cfg) * sizeof_sample) (rb_contents (buffer g))"
      using s by (simp add: playback_success [OF ok] sizeof_sample_def split: prod.splits)
  }
qed

theorem callbacks_frame_interleaved_witness:
  "rb_wf (jack_ringbuffer_create 16) \<and> rb_wf example_ring \<and> (2::nat) < 2 ^ 31 \<and> (1::nat) < 2 ^ 31
   \<and> port_buffers (nat 2) 2 example_buffers
   \<and> port_buffers (nat 2) 1 [[zero_sample], [zero_sample]]
   \<and> 2 * nat 2 * sizeof_sample \<le> jack_ringbuffer_write_space (jack_ringbuffer_create 16)
   \<and> 1 * nat 2 * sizeof_sample \<le> jack_ringbuffer_read_space example_ring
   \<and> rb_contents (buffer (fst (jack_capture_callback (initial_config\<lparr>ports := 2\<rparr>) 2 example_buffers
          ((initial_world initial_config [])\<lparr>buffer := jack_ringbuffer_create 16\<rparr>))))
       = [1, 2, 3, 4, 9, 10, 11, 12, 5, 6, 7, 8, 13, 14, 15, 16]
   \<and> samples_bytes (frame_interleaved 2 1
         (fst (snd (jack_playback_callback (initial_config\<lparr>ports := 2\<rparr>) 1
            [[zero_sample], [zero_sample]]
            ((initial_world initial_config [])\<lparr>buffer := example_ring\<rparr>)))))
       = [1, 2, 3, 4, 5, 6, 7, 8]"
proof -
  have h: "rb_wf (jack_ringbuffer_create 16)" "rb_wf example_ring" "(2::nat) < 2 ^ 31" "(1::nat) < 2 ^ 31"
    "port_buffers (nat 2) 2 example_buffers" "port_buffers (nat 2) 1 [[zero_sample], [zero_sample]]"
    "2 * nat 2 * sizeof_sample \<le> jack_ringbuffer_write_space (jack_ringbuffer_create 16)"
    "1 * nat 2 * sizeof_sample \<le> jack_ringbuffer_read_space example_ring"
    by (simp_all add: rb_wf_def jack_ringbuffer_create_def example_ring_def port_buffers_def
        example_buffers_def sizeof_sample_def jack_ringbuffer_write_space_def
        jack_ringbuffer_read_space_def)
  have c: "rb_contents (jack_ringbuffer_create 16) = []"
    by (simp add: rb_contents_def jack_ringbuffer_create_def rb_span_def)
  have i: "samples_bytes (frame_interleaved 2 2 example_buffers)
      = [1, 2, 3, 4, 9, 10, 11, 12, 5, 6, 7, 8, 13, 14, 15, 16]"
    by (simp add: samples_bytes_def frame_interleaved_def example_buffers_def upt_rec numeral_2_eq_2)
  have e: "rb_contents example_ring = [1, 2, 3, 4, 5, 6, 7, 8]"
    by (simp add: rb_contents_def example_ring_def rb_span_def upt_rec [of _ 8] upt_rec [of _ "numeral n" for n])
  from callbacks_frame_interleaved
    [of "(initial_world initial_config [])\<lparr>buffer := jack_ringbuffer_create 16\<rparr>" 2
      "initial_config\<lparr>ports := 2\<rparr>" example_buffers]
    callbacks_frame_interleaved
    [of "(initial_world initial_config [])\<lparr>buffer := example_ring\<rparr>" 1
      "initial_config\<lparr>ports := 2\<rparr>" "[[zero_sample], [zero_sample]]"]
  show ?thesis using h c i e by (simp add: sizeof_sample_def)
qed

section \<open>The playback callback at the boundary\<close>

text \<open>
  Claim C4. For every invocation of the playback callback with \<open>F\<close> frames and \<open>N\<close>
  channels: if the ring buffer holds exactly \<open>F * N * 4\<close> readable bytes, every port
  buffer is filled with the data of the ring buffer (read frame-interleaved, the port
  buffers give back its contents), with no underrun counted, no stop and no
  deactivation; if it holds one byte less, one underrun is counted, every port buffer
  is filled with zero samples, the ring buffer stays as it was, and the stop flag is set
  and the deactivation of the client requested exactly when the end-of-file flag is
  already set.
\<close>

theorem playback_boundary:
  assumes "rb_wf (buffer g)" "nframes < 2 ^ 31" "0 \<le> ports cfg" "ports cfg \<le> 32"
    "port_buffers (nat (ports cfg)) nframes bufs"
  shows "(jack_ringbuffer_read_space (buffer g) = nframes * nat (ports cfg) * sizeof_sample \<longrightarrow>
            samples_bytes (frame_interleaved (nat (ports cfg)) nframes
                (fst (snd (jack_playback_callback cfg nframes bufs g))))
              = rb_contents (buffer g)
          \<and> port_buffers (nat (ports cfg)) nframes
                (fst (snd (jack_playback_callback cfg nframes bufs g)))
          \<and> underruns (status (fst (jack_playback_callback cfg nframes bufs g)))
              = underruns (status g)
          \<and> stop (status (fst (jack_playback_callback cfg nframes bufs g))) = stop (status g)
          \<and> Jack_deactivate \<notin> set (drop (length (trace g))
                (trace (fst (jack_playback_callback cfg nframes bufs g)))))
       \<and> (jack_ringbuffer_read_space (buffer g) + 1 = nframes * nat (ports cfg) * sizeof_sample \<longrightarrow>
            underruns (status (fst (jack_playback_callback cfg nframes bufs g)))
              = underruns (status g) + 1
          \<and> fst (snd (jack_playback_callback cfg nframes bufs g))
              = replicate (nat (ports cfg)) (replicate nframes zero_sample)
          \<and> buffer (fst (jack_playback_callback cfg nframes bufs g)) = buffer g
          \<and> snd (snd (jack_playback_callback cfg nframes bufs g)) = 0
          \<and> (eof (status g) \<noteq> 0 \<longrightarrow>
                stop (status (fst (jack_playback_callback cfg nframes bufs g))) = 1
              \<and> trace (fst (jack_playback_callback cfg nframes bufs g))
                  = trace g @ [Jack_deactivate])
          \<and> (eof (status g) = 0 \<longrightarrow>
                stop (status (fst (jack_playback_callback cfg nframes bufs g))) = stop (status g)
              \<and> trace (fst (jack_playback_callback cfg nframes bufs g)) = trace g))"
proof -
  note rq = required_bytes_nowrap [OF assms(2,3,4)]
  have exact: "samples_bytes (frame_interleaved (nat (ports cfg)) nframes
                (fst (snd (jack_playback_callback cfg nframes bufs g))))
              = rb_contents (buffer g)
          \<and> port_buffers (nat (ports cfg)) nframes
                (fst (snd (jack_playback_callback cfg nframes bufs g)))
          \<and> underruns (status (fst (jack_playback_callback cfg nframes bufs g)))
              = underruns (status g)
          \<and> stop (status (fst (jack_playback_callback cfg nframes bufs g))) = stop (status g)
          \<and> Jack_deactivate \<notin> set (drop (length (trace g))
                (trace (fst (jack_playback_callback cfg nframes bufs g))))"
    if e: "jack_ringbuffer_read_space (buffer g) = nframes * nat (ports cfg) * sizeof_sample"
  proof -
    have fit: "nframes * nat (ports cfg) * 4 \<le> jack_ringbuffer_read_space (buffer g)"
      and ok: "\<not> jack_ringbuffer_read_space (buffer g) < required_bytes nframes (ports cfg)"
      and all: "take (nframes * nat (ports cfg) * 4) (rb_contents (buffer g)) = rb_contents (buffer g)"
      using e by (simp_all add: rq sizeof_sample_def length_rb_contents)
    note s = playback_frames_spec [OF assms(5) fit]
    show ?thesis
      using s all
      by (auto simp: playback_success [OF ok] signal_disk_thread_def split: prod.splits)
  qed
  have less: "underruns (status (fst (jack_playback_callback cfg nframes bufs g)))
              = underruns (status g) + 1
          \<and> fst (snd (jack_playback_callback cfg nframes bufs g))
              = replicate (nat (ports cfg)) (replicate nframes zero_sample)
          \<and> buffer (fst (jack_playback_callback cfg nframes bufs g)) = buffer g
          \<and> snd (snd (jack_playback_callback cfg nframes bufs g)) = 0
          \<and> (eof (status g) \<noteq> 0 \<longrightarrow>
                stop (status (fst (jack_playback_callback cfg nframes bufs g))) = 1
              \<and> trace (fst (jack_playback_callback cfg nframes bufs g))
                  = trace g @ [Jack_deactivate])
          \<and> (eof (status g) = 0 \<longrightarrow>
                stop (status (fst (jack_playback_callback cfg nframes bufs g))) = stop (status g)
              \<and> trace (fst (jack_playback_callback cfg nframes bufs g)) = trace g)"
    if l: "jack_ringbuffer_read_space (buffer g) + 1 = nframes * nat (ports cfg) * sizeof_sample"
  proof -
    have un: "jack_ringbuffer_read_space (buffer g) < required_bytes nframes (ports cfg)"
      using l by (simp add: rq sizeof_sample_def)
    show ?thesis
      by (simp add: playback_underrun [OF un] zero_fill_ports [OF assms(5)])
  qed
  show ?thesis using exact less by blast
qed

theorem playback_boundary_witness:
  "rb_wf example_ring \<and> rb_wf example_ring_short \<and> (1::nat) < 2 ^ 31
   \<and> port_buffers (nat 2) 1 [[Sample 9 9 9 9], [Sample 9 9 9 9]]
   \<and> jack_ringbuffer_read_space example_ring = 1 * nat 2 * sizeof_sample
   \<and> jack_ringbuffer_read_space example_ring_short + 1 = 1 * nat 2 * sizeof_sample
   \<and> samples_bytes (frame_interleaved 2 1
         (fst (snd (jack_playback_callback (initial_config\<lparr>ports := 2\<rparr>) 1
            [[Sample 9 9 9 9], [Sample 9 9 9 9]]
            ((initial_world initial_config [])\<lparr>buffer := example_ring\<rparr>)))))
       = [1, 2, 3, 4, 5, 6, 7, 8]
   \<and> fst (snd (jack_playback_callback (initial_config\<lparr>ports := 2\<rparr>) 1
         [[Sample 9 9 9 9], [Sample 9 9 9 9]]
         ((initial_world initial_config [])\<lparr>buffer := example_ring_short,
              status := initial_status\<lparr>eof := 1\<rparr>\<rparr>)))
       = [[zero_sample], [zero_sample]]
   \<and> underruns (status (fst (jack_playback_callback (initial_config\<lparr>ports := 2\<rparr>) 1
         [[Sample 9 9 9 9], [Sample 9 9 9 9]]
         ((initial_world initial_config [])\<lparr>buffer := example_ring_short,
              status := initial_status\<lparr>eof := 1\<rparr>\<rparr>)))) = 1
   \<and> stop (status (fst (jack_playback_callback (initial_config\<lparr>ports := 2\<rparr>) 1
         [[Sample 9 9 9 9], [Sample 9 9 9 9]]
         ((initial_world initial_config [])\<lparr>buffer := example_ring_short,
              status := initial_status\<lparr>eof := 1\<rparr>\<rparr>)))) = 1
   \<and> stop (status (fst (jack_playback_callback (initial_config\<lparr>ports := 2\<rparr>) 1
         [[Sample 9 9 9 9], [Sample 9 9 9 9]]
         ((initial_world initial_config [])\<lparr>buffer := example_ring_short\<rparr>)))) = 0"
proof -
  have h: "rb_wf example_ring" "rb_wf example_ring_short" "(1::nat) < 2 ^ 31"
    "port_buffers (nat 2) 1 [[Sample 9 9 9 9], [Sample 9 9 9 9]]"
    "jack_ringbuffer_read_space example_ring = 1 * nat 2 * sizeof_sample"
    "jack_ringbuffer_read_space example_ring_short + 1 = 1 * nat 2 * sizeof_sample"
    by (simp_all add: rb_wf_def example_ring_def example_ring_short_def port_buffers_def
        sizeof_sample_def jack_ringbuffer_read_space_def)
  have e: "rb_contents example_ring = [1, 2, 3, 4, 5, 6, 7, 8]"
    by (simp add: rb_contents_def example_ring_def rb_span_def upt_rec [of _ 8] upt_rec [of _ "numeral n" for n])
  from playback_boundary
    [of "(initial_world initial_config [])\<lparr>buffer := example_ring\<rparr>" 1
      "initial_config\<lparr>ports := 2\<rparr>" "[[Sample 9 9 9 9], [Sample 9 9 9 9]]"]
    playback_boundary
    [of "(initial_world initial_config [])\<lparr>buffer := example_ring_short,
              status := initial_status\<lparr>eof := 1\<rparr>\<rparr>" 1
      "initial_config\<lparr>ports := 2\<rparr>" "[[Sample 9 9 9 9], [Sample 9 9 9 9]]"]
    playback_boundary
    [of "(initial_world initial_config [])\<lparr>buffer := example_ring_short\<rparr>" 1
      "initial_config\<lparr>ports := 2\<rparr>" "[[Sample 9 9 9 9], [Sample 9 9 9 9]]"]
  show ?thesis using h e
    by (simp add: sizeof_sample_def initial_world_def initial_status_def numeral_2_eq_2)
qed

section \<open>A callback moves a whole period or nothing\<close>

lemma length_frame_interleaved: "length (frame_interleaved n nframes bufs) = nframes * n"
proof -
  have "frame_interleaved n nframes bufs
      = map (\<lambda>k. bufs ! (k mod n) ! (k div n)) [0..<nframes * n]"
    unfolding frame_interleaved_def by (rule interleaved_index)
  then show ?thesis by simp
qed

text \<open>
  Claim C10. Every invocation of a callback is all-or-nothing on the ring buffer. The
  capture callback either writes exactly \<open>F * N\<close> samples: the queue of unread bytes is
  then what it was followed by the \<open>F * N\<close> samples of the port buffers (\<open>F * N * 4\<close>
  bytes), the write cursor has advanced by exactly \<open>F * N * 4\<close> and the read cursor has
  not moved; or, on overflow, it leaves the ring buffer, its write cursor and its
  contents, unchanged. The playback callback either consumes exactly \<open>F * N\<close> samples:
  the port buffers then hold the first \<open>F * N * 4\<close> bytes of the queue, the queue is
  what it was without these bytes, the read cursor has advanced by exactly
  \<open>F * N * 4\<close> and the write cursor has not moved; or, on underrun, it leaves the ring
  buffer unchanged, so the bytes it holds stay readable.
\<close>

theorem callbacks_all_or_nothing:
  assumes "rb_wf (buffer g)" "nframes < 2 ^ 31" "0 \<le> ports cfg" "ports cfg \<le> 32"
    "port_buffers (nat (ports cfg)) nframes bufs"
  shows "(nframes * nat (ports cfg) * sizeof_sample \<le> jack_ringbuffer_write_space (buffer g) \<longrightarrow>
            rb_write_ptr (buffer (fst (jack_capture_callback cfg nframes bufs g)))
              = rb_write_ptr (buffer g) + nframes * nat (ports cfg) * sizeof_sample
          \<and> rb_read_ptr (buffer (fst (jack_capture_callback cfg nframes bufs g)))
              = rb_read_ptr (buffer g)
          \<and> rb_contents (buffer (fst (jack_capture_callback cfg nframes bufs g)))
              = rb_contents (buffer g)
                  @ samples_bytes (frame_interleaved (nat (ports cfg)) nframes bufs)
          \<and> length (frame_interleaved (nat (ports cfg)) nframes bufs) = nframes * nat (ports cfg)
          \<and> length (rb_contents (buffer (fst (jack_capture_callback cfg nframes bufs g))))
              = length (rb_contents (buffer g)) + nframes * nat (ports cfg) * sizeof_sample)
       \<and> (jack_ringbuffer_write_space (buffer g) < nframes * nat (ports cfg) * sizeof_sample \<longrightarrow>
            buffer (fst (jack_capture_callback cfg nframes bufs g)) = buffer g
          \<and> rb_contents (buffer (fst (jack_capture_callback cfg nframes bufs g)))
              = rb_contents (buffer g))
       \<and> (nframes * nat (ports cfg) * sizeof_sample \<le> jack_ringbuffer_read_space (buffer g) \<longrightarrow>
            rb_read_ptr (buffer (fst (jack_playback_callback cfg nframes bufs g)))
              = rb_read_ptr (buffer g) + nframes * nat (ports cfg) * sizeof_sample
          \<and> rb_write_ptr (buffer (fst (jack_playback_callback cfg nframes bufs g)))
              = rb_write_ptr (buffer g)
          \<and> samples_bytes (frame_interleaved (nat (ports cfg)) nframes
                (fst (snd (jack_playback_callback cfg nframes bufs g))))
              = take (nframes * nat (ports cfg) * sizeof_sample) (rb_contents (buffer g))
          \<and> rb_contents (buffer (fst (jack_playback_callback cfg nframes bufs g)))
              = drop (nframes * nat (ports cfg) * sizeof_sample) (rb_contents (buffer g))
          \<and> length (rb_contents (buffer (fst (jack_playback_callback cfg nframes bufs g))))
                + nframes * nat (ports cfg) * sizeof_sample
              = length (rb_contents (buffer g)))
       \<and> (jack_ringbuffer_read_space (buffer g) < nframes * nat (ports cfg) * sizeof_sample \<longrightarrow>
            buffer (fst (jack_playback_callback cfg nframes bufs g)) = buffer g
          \<and> rb_contents (buffer (fst (jack_playback_callback cfg nframes bufs g)))
              = rb_contents (buffer g))"
proof (intro conjI impI)
  note rq = required_bytes_nowrap [OF assms(2,3,4)]
  {
    assume "nframes * nat (ports cfg) * sizeof_sample \<le> jack_ringbuffer_write_space (buffer g)"
    then have fit: "nframes * nat (ports cfg) * 4 \<le> jack_ringbuffer_write_space (buffer g)"
      and ok: "\<not> jack_ringbuffer_write_space (buffer g) < required_bytes nframes (ports cfg)"
      by (simp_all add: rq sizeof_sample_def)
    note s = capture_frames_spec [OF assms(1) fit, of bufs]
    show "rb_write_ptr (buffer (fst (jack_capture_callback cfg nframes bufs g)))
        = rb_write_ptr (buffer g) + nframes * nat (ports cfg) * sizeof_sample"
      using s by (simp add: capture_success [OF ok] sizeof_sample_def)
    show "rb_read_ptr (buffer (fst (jack_capture_callback cfg nframes bufs g)))
        = rb_read_ptr (buffer g)"
      using s by (simp add: capture_success [OF ok])
    show c: "rb_contents (buffer (fst (jack_capture_callback cfg nframes bufs g)))
        = rb_contents (buffer g) @ samples_bytes (frame_interleaved (nat (ports cfg)) nframes bufs)"
      using s by (simp add: capture_success [OF ok])
    show "length (frame_interleaved (nat (ports cfg)) nframes bufs) = nframes * nat (ports cfg)"
      by (rule length_frame_interleaved)
    show "length (rb_contents (buffer (fst (jack_capture_callback cfg nframes bufs g))))
        = length (rb_contents (buffer g)) + nframes * nat (ports cfg) * sizeof_sample"
      unfolding c by (simp add: length_frame_interleaved sizeof_sample_def)
  }
  {
    assume "jack_ringbuffer_write_space (buffer g) < nframes * nat (ports cfg) * sizeof_sample"
    then have ov: "jack_ringbuffer_write_space (buffer g) < required_bytes nframes (ports cfg)"
      by (simp add: rq sizeof_sample_def)
    show "buffer (fst (jack_capture_callback cfg nframes bufs g)) = buffer g"
      by (simp add: capture_overflow [OF ov])
    then show "rb_contents (buffer (fst (jack_capture_callback cfg nframes bufs g)))
        = rb_contents (buffer g)"
      by simp
  }
  {
    assume a: "nframes * nat (ports cfg) * sizeof_sample \<le> jack_ringbuffer_read_space (buffer g)"
    then have fit: "nframes * nat (ports cfg) * 4 \<le> jack_ringbuffer_read_space (buffer g)"
      and ok: "\<not> jack_ringbuffer_read_space (buffer g) < required_bytes nframes (ports cfg)"
      by (simp_all add: rq sizeof_sample_def)
    note s = playback_frames_spec [OF assms(5) fit]
    show "rb_read_ptr (buffer (fst (jack_playback_callback cfg nframes bufs g)))
        = rb_read_ptr (buffer g) + nframes * nat (ports cfg) * sizeof_sample"
      using s by (simp add: playback_success [OF ok] sizeof_sample_def split: prod.splits)
    show "rb_write_ptr (buffer (fst (jack_playback_callback cfg nframes bufs g)))
        = rb_write_ptr (buffer g)"
      using s by (simp add: playback_success [OF ok] split: prod.splits)
    show "samples_bytes (frame_interleaved (nat (ports cfg)) nframes
              (fst (snd (jack_playback_callback cfg nframes bufs g))))
        = take (nframes * nat (ports cfg) * sizeof_sample) (rb_contents (buffer g))"
      using s by (simp add: playback_success [OF ok] sizeof_sample_def split: prod.splits)
    show d: "rb_contents (buffer (fst (jack_playback_callback cfg nframes bufs g)))
        = drop (nframes * nat (ports cfg) * sizeof_sample) (rb_contents (buffer g))"
      using s by (simp add: playback_success [OF ok] sizeof_sample_def split: prod.splits)
    show "length (rb_contents (buffer (fst (jack_playback_callback cfg nframes bufs g))))
          + nframes * nat (ports cfg) * sizeof_sample
        = length (rb_contents (buffer g))"
      unfolding d using a by (simp add: length_rb_contents)
  }
  {
    assume "jack_ringbuffer_read_space (buffer g) < nframes * nat (ports cfg) * sizeof_sample"
    then have un: "jack_ringbuffer_read_space (buffer g) < required_bytes nframes (ports cfg)"
      by (simp add: rq sizeof_sample_def)
    show "buffer (fst (jack_playback_callback cfg nframes bufs g)) = buffer g"
      by (simp add: playback_underrun [OF un])
    then show "rb_contents (buffer (fst (jack_playback_callback cfg nframes bufs g)))
        = rb_contents (buffer g)"
      by simp
  }
qed

theorem callbacks_all_or_nothing_witness:
  "rb_wf example_ring \<and> rb_wf example_ring_short \<and> (1::nat) < 2 ^ 31 \<and> (0::int) \<le> 2 \<and> (2::int) \<le> 32
   \<and> port_buffers (nat 2) 1 [[Sample 9 10 11 12], [Sample 13 14 15 16]]
   \<and> 1 * nat 2 * sizeof_sample \<le> jack_ringbuffer_read_space example_ring
   \<and> jack_ringbuffer_write_space example_ring < 1 * nat 2 * sizeof_sample
   \<and> jack_ringbuffer_read_space example_ring_short < 1 * nat 2 * sizeof_sample
   \<and> 1 * nat 2 * sizeof_sample \<le> jack_ringbuffer_write_space (jack_ringbuffer_create 8)
   \<and> buffer (fst (jack_capture_callback (initial_config\<lparr>ports := 2\<rparr>) 1
         [[Sample 9 10 11 12], [Sample 13 14 15 16]]
         ((initial_world initial_config [])\<lparr>buffer := example_ring\<rparr>))) = example_ring
   \<and> rb_write_ptr (buffer (fst (jack_capture_callback (initial_config\<lparr>ports := 2\<rparr>) 1
         [[Sample 9 10 11 12], [Sample 13 14 15 16]]
         ((initial_world initial_config [])\<lparr>buffer := jack_ringbuffer_create 8\<rparr>)))) = 8
   \<and> rb_contents (buffer (fst (jack_capture_callback (initial_config\<lparr>ports := 2\<rparr>) 1
         [[Sample 9 10 11 12], [Sample 13 14 15 16]]
         ((initial_world initial_config [])\<lparr>buffer := jack_ringbuffer_create 8\<rparr>))))
       = [9, 10, 11, 12, 13, 14, 15, 16]
   \<and> rb_read_ptr (buffer (fst (jack_playback_callback (initial_config\<lparr>ports := 2\<rparr>) 1
         [[Sample 9 10 11 12], [Sample 13 14 15 16]]
         ((initial_world initial_config [])\<lparr>buffer := example_ring\<rparr>)))) = 8
   \<and> samples_bytes (frame_interleaved 2 1
         (fst (snd (jack_playback_callback (initial_config\<lparr>ports := 2\<rparr>) 1
            [[Sample 9 10 11 12], [Sample 13 14 15 16]]
            ((initial_world initial_config [])\<lparr>buffer := example_ring\<rparr>)))))
       = [1, 2, 3, 4, 5, 6, 7, 8]
   \<and> rb_contents (buffer (fst (jack_playback_callback (initial_config\<lparr>ports := 2\<rparr>) 1
         [[Sample 9 10 11 12], [Sample 13 14 15 16]]
         ((initial_world initial_config [])\<lparr>buffer := example_ring\<rparr>)))) = []
   \<and> buffer (fst (jack_playback_callback (initial_config\<lparr>ports := 2\<rparr>) 1
         [[Sample 9 10 11 12], [Sample 13 14 15 16]]
         ((initial_world initial_config [])\<lparr>buffer := example_ring_short\<rparr>))) = example_ring_short"
proof -
  have h: "rb_wf example_ring" "rb_wf example_ring_short" "rb_wf (jack_ringbuffer_create 8)"
    "(1::nat) < 2 ^ 31"
    "port_buffers (nat 2) 1 [[Sample 9 10 11 12], [Sample 13 14 15 16]]"
    "1 * nat 2 * sizeof_sample \<le> jack_ringbuffer_read_space example_ring"
    "jack_ringbuffer_write_space example_ring < 1 * nat 2 * sizeof_sample"
    "jack_ringbuffer_read_space example_ring_short < 1 * nat 2 * sizeof_sample"
    "1 * nat 2 * sizeof_sample \<le> jack_ringbuffer_write_space (jack_ringbuffer_create 8)"
    by (simp_all add: rb_wf_def example_ring_def example_ring_short_def port_buffers_def
        sizeof_sample_def jack_ringbuffer_read_space_def jack_ringbuffer_write_space_def
        jack_ringbuffer_create_def)
  have c: "rb_contents (jack_ringbuffer_create 8) = []"
    by (simp add: rb_contents_def jack_ringbuffer_create_def rb_span_def)
  have i: "samples_bytes (frame_interleaved 2 1 [[Sample 9 10 11 12], [Sample 13 14 15 16]])
      = [9, 10, 11, 12, 13, 14, 15, 16]"
    by (simp add: samples_bytes_def frame_interleaved_def upt_rec numeral_2_eq_2)
  have e: "rb_contents example_ring = [1, 2, 3, 4, 5, 6, 7, 8]"
    by (simp add: rb_contents_def example_ring_def rb_span_def upt_rec [of _ 8] upt_rec [of _ "numeral n" for n])
  from callbacks_all_or_nothing
    [of "(initial_world initial_config [])\<lparr>buffer := example_ring\<rparr>" 1
      "initial_config\<lparr>ports := 2\<rparr>" "[[Sample 9 10 11 12], [Sample 13 14 15 16]]"]
    callbacks_all_or_nothing
    [of "(initial_world initial_config [])\<lparr>buffer := example_ring_short\<rparr>" 1
      "initial_config\<lparr>ports := 2\<rparr>" "[[Sample 9 10 11 12], [Sample 13 14 15 16]]"]
    callbacks_all_or_nothing
    [of "(initial_world initial_config [])\<lparr>buffer := jack_ringbuffer_create 8\<rparr>" 1
      "initial_config\<lparr>ports := 2\<rparr>" "[[Sample 9 10 11 12], [Sample 13 14 15 16]]"]
  show ?thesis using h c i e
    by (simp add: sizeof_sample_def jack_ringbuffer_create_def example_ring_def)
qed

section \<open>A second termination signal\<close>

text \<open>
  Claim C9. Delivering a second termination signal after a first one has been handled
  is idempotent. In any state in which a signal has been handled (the stop flag is 1),
  the handler leaves \<^verbatim>\<open>status\<close>, the stop flag and all counters, and the rest of the state
  as they are. Delivered twice in a row, it performs the second time the operations it
  performed the first time (the same code runs). In any state the operations it performs
  are added to those performed before, and none of them can block: the only operation
  on the mutex before it is held is the attempt \<^verbatim>\<open>pthread_mutex_trylock\<close>.
\<close>

theorem second_signal_idempotent:
  "(stop (status g) = 1 \<longrightarrow>
      status (signal_handler g) = status g
    \<and> buffer (signal_handler g) = buffer g
    \<and> disk_mutex (signal_handler g) = disk_mutex g
    \<and> disk_file (signal_handler g) = disk_file g
    \<and> disk_offset (signal_handler g) = disk_offset g
    \<and> disk_running (signal_handler g) = disk_running g)
   \<and> stop (status (signal_handler g)) = 1
   \<and> status (signal_handler (signal_handler g)) = status (signal_handler g)
   \<and> drop (length (trace (signal_handler g))) (trace (signal_handler (signal_handler g)))
       = drop (length (trace g)) (trace (signal_handler g))
   \<and> take (length (trace g)) (trace (signal_handler g)) = trace g
   \<and> filter blocking (drop (length (trace g)) (trace (signal_handler g))) = []"
  by (simp add: signal_handler_def signal_disk_thread_def)

theorem second_signal_idempotent_witness:
  "stop (status (signal_handler (initial_world initial_config []))) = 1
   \<and> status (signal_handler (signal_handler (initial_world initial_config [])))
       = status (signal_handler (initial_world initial_config []))
   \<and> status (signal_handler (signal_handler (initial_world initial_config [])))
       = initial_status\<lparr>stop := 1\<rparr>
   \<and> trace (signal_handler (signal_handler (initial_world initial_config [])))
       = [Mutex_trylock True, Cond_signal, Mutex_unlock, Mutex_trylock True, Cond_signal,
          Mutex_unlock]"
  using second_signal_idempotent [of "initial_world initial_config []"]
    second_signal_idempotent [of "signal_handler (initial_world initial_config [])"]
  by (simp add: signal_handler_def signal_disk_thread_def initial_world_def)

section \<open>The file header\<close>

lemma dec_digits_digit: "n < 10 \<Longrightarrow> dec_digits n = [char_of (48 + n)]"
  by simp

lemma file_header_one_digit:
  assumes "0 \<le> p" "p \<le> 9"
  shows "file_header p = map of_char ''JACK'' @ [of_char (char_of (48 + nat p)), 0]"
    and "length (file_header p) = FILE_HEADER_LEN"
  using assms by (simp_all add: file_header_def sprintf_d_def FILE_HEADER_LEN_def)

lemma file_header_ten: "file_header 10 = [74, 65, 67, 75, 49, 48, 0]"
proof -
  have d: "dec_digits 10 = [char_of (49::nat), char_of (48::nat)]"
    by (subst dec_digits.simps) simp
  have "of_char (char_of (49::nat)) = (49 :: byte)" "of_char (char_of (48::nat)) = (48 :: byte)"
    by (simp_all add: char_of_def bit_iff_odd)
  then show ?thesis
    by (simp add: file_header_def sprintf_d_def d)
qed

text \<open>
  Claim C5 says that for every channel count from 1 to 32 the header is exactly 6 bytes,
  with one decimal digit for the count. For a count below ten it is
  (\<open>file_header_one_digit\<close>). For ten ports \<^verbatim>\<open>sprintf\<close> gives two digits: the disk writer
  asks \<^verbatim>\<open>write\<close> for seven bytes, \<^verbatim>\<open>JACK10\<close> and the zero byte, while the disk reader skips
  \<open>FILE_HEADER_LEN = 6\<close> bytes, so the zero byte of the header is the first byte it
  takes for sample data.
\<close>

theorem header_ten_ports_seven_bytes:
  "file_header 10 = [74, 65, 67, 75, 49, 48, 0]
   \<and> length (file_header 10) = 7
   \<and> FILE_HEADER_LEN = 6
   \<and> disk_file (disk_write_start (initial_config\<lparr>ports := 10\<rparr>) True (Io_bytes 7)
        (initial_world initial_config [])) = [74, 65, 67, 75, 49, 48, 0]
   \<and> disk_offset (disk_read_start (initial_config\<lparr>ports := 10\<rparr>) True
        (initial_world initial_config ([74, 65, 67, 75, 49, 48, 0] @ [1, 2, 3, 4]))) = 6
   \<and> os_read ([74, 65, 67, 75, 49, 48, 0] @ [1, 2, 3, 4]) 6 4 = [0, 1, 2, 3]"
  by (simp add: file_header_ten FILE_HEADER_LEN_def disk_write_start_def disk_read_start_def
      initial_world_def os_read_def Let_def)

section \<open>An invalid unit suffix\<close>




lemma int_mul_in_range:
  assumes "- (2 ^ 31) \<le> a * b" "a * b < 2 ^ 31"
  shows "int_mul a b = a * b"
proof -
  have "signed_take_bit 31 (a * b) = a * b"
    using assms by (intro signed_take_bit_int_eq_self) simp_all
  moreover have "LENGTH(32) - 1 = (31::nat)" by simp
  ultimately show ?thesis
    unfolding int_mul_def sint_sbintrunc' by (simp only:)
qed

lemma scaled_blocksize_example:
  "blocksize (fst (snd (parse_opts [Opt_b (Some (4, Some CHR ''k''))] initial_config []))) = 4096"
  "blocksize (fst (snd (parse_opts [Opt_b (Some (3, Some CHR ''g''))] initial_config [])))
     = - 1073741824"
  "rbsize (fst (snd (parse_opts [Opt_B (Some (3, Some CHR ''g''))] initial_config [])))
     = - 1073741824"
  by (simp_all add: units_def int_mul_def)


lemma required_checks_code: "fst (required_checks c out) = fst (required_checks c out')"
  by (simp add: required_checks_def)






section \<open>The disk writer and a short write\<close>

lemma read_vector_first:
  assumes "rb_wf rb" "0 < jack_ringbuffer_read_space rb"
  shows "vec_buf (jack_ringbuffer_get_read_vector rb ! 0) = rb_read_ptr rb mod length (rb_buf rb)"
    and "0 < vec_len (jack_ringbuffer_get_read_vector rb ! 0)"
    and "vec_len (jack_ringbuffer_get_read_vector rb ! 0) \<le> jack_ringbuffer_read_space rb"
    and "rb_read_ptr rb mod length (rb_buf rb) + vec_len (jack_ringbuffer_get_read_vector rb ! 0)
           \<le> length (rb_buf rb)"
proof -
  have sz: "0 < length (rb_buf rb)"
    using assms by (auto simp: rb_wf_def jack_ringbuffer_read_space_def)
  then have off: "rb_read_ptr rb mod length (rb_buf rb) < length (rb_buf rb)" by simp
  show "vec_buf (jack_ringbuffer_get_read_vector rb ! 0) = rb_read_ptr rb mod length (rb_buf rb)"
    by (simp add: jack_ringbuffer_get_read_vector_def Let_def)
  show "0 < vec_len (jack_ringbuffer_get_read_vector rb ! 0)"
    using assms(2) off by (simp add: jack_ringbuffer_get_read_vector_def Let_def)
  show "vec_len (jack_ringbuffer_get_read_vector rb ! 0) \<le> jack_ringbuffer_read_space rb"
    by (auto simp: jack_ringbuffer_get_read_vector_def Let_def)
  show "rb_read_ptr rb mod length (rb_buf rb) + vec_len (jack_ringbuffer_get_read_vector rb ! 0)
      \<le> length (rb_buf rb)"
    using off by (auto simp: jack_ringbuffer_get_read_vector_def Let_def)
qed

lemma write_vector_first:
  assumes "0 < jack_ringbuffer_write_space rb"
  shows "vec_buf (jack_ringbuffer_get_write_vector rb ! 0) = rb_write_ptr rb mod length (rb_buf rb)"
    and "0 < vec_len (jack_ringbuffer_get_write_vector rb ! 0)"
    and "vec_len (jack_ringbuffer_get_write_vector rb ! 0) \<le> jack_ringbuffer_write_space rb"
    and "rb_write_ptr rb mod length (rb_buf rb) + vec_len (jack_ringbuffer_get_write_vector rb ! 0)
           \<le> length (rb_buf rb)"
proof -
  have sz: "0 < length (rb_buf rb)"
    using assms by (auto simp: jack_ringbuffer_write_space_def)
  then have off: "rb_write_ptr rb mod length (rb_buf rb) < length (rb_buf rb)" by simp
  show "vec_buf (jack_ringbuffer_get_write_vector rb ! 0) = rb_write_ptr rb mod length (rb_buf rb)"
    by (simp add: jack_ringbuffer_get_write_vector_def Let_def)
  show "0 < vec_len (jack_ringbuffer_get_write_vector rb ! 0)"
    using assms off by (simp add: jack_ringbuffer_get_write_vector_def Let_def)
  show "vec_len (jack_ringbuffer_get_write_vector rb ! 0) \<le> jack_ringbuffer_write_space rb"
    by (auto simp: jack_ringbuffer_get_write_vector_def Let_def)
  show "rb_write_ptr rb mod length (rb_buf rb) + vec_len (jack_ringbuffer_get_write_vector rb ! 0)
      \<le> length (rb_buf rb)"
    using off by (auto simp: jack_ringbuffer_get_write_vector_def Let_def)
qed

lemma storage_span:
  assumes "p mod length buf + l \<le> length buf"
  shows "take l (drop (p mod length buf) buf) = rb_span buf p (p + l)"
proof (rule nth_equalityI)
  show "length (take l (drop (p mod length buf) buf)) = length (rb_span buf p (p + l))"
    using assms by simp
next
  fix i assume "i < length (take l (drop (p mod length buf) buf))"
  then have i: "i < l" by simp
  then have "p mod length buf + i < length buf" using assms by simp
  then have "(p + i) mod length buf = p mod length buf + i"
    using mod_add_left_eq [of p "length buf" i] by simp
  then show "take l (drop (p mod length buf) buf) ! i = rb_span buf p (p + l) ! i"
    using i assms by (simp add: rb_span_def)
qed

lemma limit_blocksize_le: "limit_blocksize c l \<le> l"
  by (simp add: limit_blocksize_def)

text \<open>What the disk writer hands to \<^verbatim>\<open>write\<close> is the front of the queue.\<close>

lemma read_vector_bytes:
  assumes "rb_wf rb" "0 < jack_ringbuffer_read_space rb"
    "l \<le> vec_len (jack_ringbuffer_get_read_vector rb ! 0)"
  shows "take l (drop (vec_buf (jack_ringbuffer_get_read_vector rb ! 0)) (rb_buf rb))
           = take l (rb_contents rb)"
proof -
  note v = read_vector_first [OF assms(1,2)]
  have "take l (drop (rb_read_ptr rb mod length (rb_buf rb)) (rb_buf rb))
      = rb_span (rb_buf rb) (rb_read_ptr rb) (rb_read_ptr rb + l)"
    using v(4) assms(3) by (intro storage_span) simp
  also have "\<dots> = take l (rb_contents rb)"
    unfolding rb_contents_def
    using v(3) assms(3) by (intro rb_span_take [symmetric]) (simp add: jack_ringbuffer_read_space_def)
  finally show ?thesis by (simp add: v(1))
qed

lemma disk_write_iter_io:
  assumes "rb_wf (buffer g)" "0 < jack_ringbuffer_read_space (buffer g)"
  shows "buffer (disk_write_iter c wres g)
      = jack_ringbuffer_read_advance (buffer g)
          (limit_blocksize c (vec_len (jack_ringbuffer_get_read_vector (buffer g) ! 0)))"
    and "disk_file (disk_write_iter c wres g)
      = fst (os_write wres (disk_file g)
          (take (limit_blocksize c (vec_len (jack_ringbuffer_get_read_vector (buffer g) ! 0)))
             (rb_contents (buffer g))))"
    and "trace (disk_write_iter c wres g)
      = (if snd (os_write wres (disk_file g)
               (take (limit_blocksize c (vec_len (jack_ringbuffer_get_read_vector (buffer g) ! 0)))
                  (rb_contents (buffer g))))
            \<noteq> limit_blocksize c (vec_len (jack_ringbuffer_get_read_vector (buffer g) ! 0))
         then trace g @ [Stderr (Msg_short_write
                (limit_blocksize c (vec_len (jack_ringbuffer_get_read_vector (buffer g) ! 0)))
                (snd (os_write wres (disk_file g)
                   (take (limit_blocksize c (vec_len (jack_ringbuffer_get_read_vector (buffer g) ! 0)))
                      (rb_contents (buffer g))))))]
         else trace g)"
    and "disk_running (disk_write_iter c wres g) = disk_running g"
    and "overflows (status (disk_write_iter c wres g)) = overflows (status g)"
    and "stop (status (disk_write_iter c wres g)) = stop (status g)"
proof -
  note v = read_vector_first [OF assms]
  note b = read_vector_bytes [OF assms limit_blocksize_le]
  show "buffer (disk_write_iter c wres g)
      = jack_ringbuffer_read_advance (buffer g)
          (limit_blocksize c (vec_len (jack_ringbuffer_get_read_vector (buffer g) ! 0)))"
    using assms(2) v(2) by (simp add: disk_write_iter_def Let_def split: prod.splits)
  show "disk_file (disk_write_iter c wres g)
      = fst (os_write wres (disk_file g)
          (take (limit_blocksize c (vec_len (jack_ringbuffer_get_read_vector (buffer g) ! 0)))
             (rb_contents (buffer g))))"
    using assms(2) v(2) by (simp add: disk_write_iter_def Let_def b split: prod.splits)
  show "trace (disk_write_iter c wres g)
      = (if snd (os_write wres (disk_file g)
               (take (limit_blocksize c (vec_len (jack_ringbuffer_get_read_vector (buffer g) ! 0)))
                  (rb_contents (buffer g))))
            \<noteq> limit_blocksize c (vec_len (jack_ringbuffer_get_read_vector (buffer g) ! 0))
         then trace g @ [Stderr (Msg_short_write
                (limit_blocksize c (vec_len (jack_ringbuffer_get_read_vector (buffer g) ! 0)))
                (snd (os_write wres (disk_file g)
                   (take (limit_blocksize c (vec_len (jack_ringbuffer_get_read_vector (buffer g) ! 0)))
                      (rb_contents (buffer g))))))]
         else trace g)"
    using assms(2) v(2) by (simp add: disk_write_iter_def Let_def b split: prod.splits)
  show "disk_running (disk_write_iter c wres g) = disk_running g"
    "overflows (status (disk_write_iter c wres g)) = overflows (status g)"
    "stop (status (disk_write_iter c wres g)) = stop (status g)"
    using assms(2) v(2) by (simp_all add: disk_write_iter_def Let_def split: prod.splits)
qed

lemma example_ring_facts:
  "rb_wf example_ring" "jack_ringbuffer_read_space example_ring = 8"
  "rb_contents example_ring = [1, 2, 3, 4, 5, 6, 7, 8]"
  "limit_blocksize initial_config (vec_len (jack_ringbuffer_get_read_vector example_ring ! 0)) = 8"
proof -
  show "rb_wf example_ring" "jack_ringbuffer_read_space example_ring = 8"
    by (simp_all add: rb_wf_def example_ring_def jack_ringbuffer_read_space_def)
  show "rb_contents example_ring = [1, 2, 3, 4, 5, 6, 7, 8]"
    by (simp add: rb_contents_def example_ring_def rb_span_def upt_rec [of _ 8]
        upt_rec [of _ "numeral n" for n])
  show "limit_blocksize initial_config (vec_len (jack_ringbuffer_get_read_vector example_ring ! 0)) = 8"
    by (simp add: limit_blocksize_def jack_ringbuffer_get_read_vector_def example_ring_def
        jack_ringbuffer_read_space_def initial_config_def size_t_of_int_def)
qed

text \<open>
  Claim C6 (as amended). For every iteration of the disk writer loop in which
  \<^verbatim>\<open>write\<close> takes fewer bytes than requested (\<open>w < l\<close>), the read cursor of the ring
  buffer is advanced by the requested length \<open>l\<close>, not by \<open>w\<close>: the file receives the
  first \<open>w\<close> bytes of the queue and the queue loses its first \<open>l\<close> bytes; the short write
  is reported as a warning, the line \<^verbatim>\<open>write(l) = w\<close> on the standard error.
\<close>

theorem short_write_advances_by_request:
  assumes "rb_wf (buffer g)" "0 < jack_ringbuffer_read_space (buffer g)"
    "w < limit_blocksize c (vec_len (jack_ringbuffer_get_read_vector (buffer g) ! 0))"
  shows "rb_read_ptr (buffer (disk_write_iter c (Io_bytes w) g))
           = rb_read_ptr (buffer g)
               + limit_blocksize c (vec_len (jack_ringbuffer_get_read_vector (buffer g) ! 0))
       \<and> disk_file (disk_write_iter c (Io_bytes w) g) = disk_file g @ take w (rb_contents (buffer g))
       \<and> rb_contents (buffer (disk_write_iter c (Io_bytes w) g))
           = drop (limit_blocksize c (vec_len (jack_ringbuffer_get_read_vector (buffer g) ! 0)))
               (rb_contents (buffer g))
       \<and> trace (disk_write_iter c (Io_bytes w) g)
           = trace g @ [Stderr (Msg_short_write
               (limit_blocksize c (vec_len (jack_ringbuffer_get_read_vector (buffer g) ! 0))) w)]"
proof -
  let ?l = "limit_blocksize c (vec_len (jack_ringbuffer_get_read_vector (buffer g) ! 0))"
  note v = read_vector_first [OF assms(1,2)]
  have "?l \<le> jack_ringbuffer_read_space (buffer g)"
    using limit_blocksize_le [of c] v(3) by (rule order_trans)
  then have len: "length (take ?l (rb_contents (buffer g))) = ?l"
    by (simp add: length_rb_contents)
  have w: "os_write (Io_bytes w) (disk_file g) (take ?l (rb_contents (buffer g)))
      = (disk_file g @ take w (rb_contents (buffer g)), w)"
  proof -
    have a: "take w (take ?l (rb_contents (buffer g))) = take w (rb_contents (buffer g))"
      using assms(3) by (simp add: min_def)
    have b: "min w (length (take ?l (rb_contents (buffer g)))) = w"
      unfolding len using assms(3) by simp
    show ?thesis
      unfolding os_write.simps a b ..
  qed
  note io = disk_write_iter_io [OF assms(1,2), of c "Io_bytes w", unfolded w fst_conv snd_conv]
  have ne: "w \<noteq> ?l" using assms(3) by simp
  show ?thesis
    unfolding io using ne
    by (simp add: jack_ringbuffer_read_advance_def rb_contents_def rb_span_drop)
qed

theorem short_write_advances_by_request_witness:
  "rb_wf (buffer ((initial_world initial_config [])\<lparr>buffer := example_ring\<rparr>))
   \<and> 0 < jack_ringbuffer_read_space (buffer ((initial_world initial_config [])\<lparr>buffer := example_ring\<rparr>))
   \<and> 3 < limit_blocksize initial_config (vec_len (jack_ringbuffer_get_read_vector
              (buffer ((initial_world initial_config [])\<lparr>buffer := example_ring\<rparr>)) ! 0))
   \<and> rb_read_ptr (buffer (disk_write_iter initial_config (Io_bytes 3)
          ((initial_world initial_config [])\<lparr>buffer := example_ring\<rparr>))) = 8
   \<and> disk_file (disk_write_iter initial_config (Io_bytes 3)
          ((initial_world initial_config [])\<lparr>buffer := example_ring\<rparr>)) = [1, 2, 3]
   \<and> trace (disk_write_iter initial_config (Io_bytes 3)
          ((initial_world initial_config [])\<lparr>buffer := example_ring\<rparr>))
       = [Stderr (Msg_short_write 8 3)]"
  using short_write_advances_by_request
    [of "(initial_world initial_config [])\<lparr>buffer := example_ring\<rparr>" 3 initial_config]
  by (simp add: example_ring_facts initial_world_def) (simp add: example_ring_def)

text \<open>
  The claim as stated fails: with eight bytes queued and a \<^verbatim>\<open>write\<close> that takes three, the
  read cursor goes from 0 to 8, not to 3, and the queue is empty afterwards.
\<close>

theorem short_write_cursor_counterexample:
  "os_write (Io_bytes 3) [] (take 8 (rb_contents example_ring)) = ([1, 2, 3], 3)
   \<and> rb_read_ptr (buffer ((initial_world initial_config [])\<lparr>buffer := example_ring\<rparr>)) = 0
   \<and> rb_read_ptr (buffer (disk_write_iter initial_config (Io_bytes 3)
          ((initial_world initial_config [])\<lparr>buffer := example_ring\<rparr>))) = 8
   \<and> rb_read_ptr (buffer (disk_write_iter initial_config (Io_bytes 3)
          ((initial_world initial_config [])\<lparr>buffer := example_ring\<rparr>)))
       \<noteq> rb_read_ptr (buffer ((initial_world initial_config [])\<lparr>buffer := example_ring\<rparr>)) + 3
   \<and> rb_contents (buffer (disk_write_iter initial_config (Io_bytes 3)
          ((initial_world initial_config [])\<lparr>buffer := example_ring\<rparr>))) = []"
proof -
  have g: "rb_wf (buffer ((initial_world initial_config [])\<lparr>buffer := example_ring\<rparr>))"
    "0 < jack_ringbuffer_read_space (buffer ((initial_world initial_config [])\<lparr>buffer := example_ring\<rparr>))"
    by (simp_all add: example_ring_facts)
  have b: "buffer (disk_write_iter initial_config (Io_bytes 3)
          ((initial_world initial_config [])\<lparr>buffer := example_ring\<rparr>))
      = \<lparr>rb_buf = [1, 2, 3, 4, 5, 6, 7, 8], rb_write_ptr = 8, rb_read_ptr = 8\<rparr>"
    by (simp add: disk_write_iter_io(1) [OF g] example_ring_facts jack_ringbuffer_read_advance_def)
      (simp add: example_ring_def)
  show ?thesis
    by (simp add: b example_ring_facts) (simp add: example_ring_def rb_contents_def rb_span_def)
qed

section \<open>The disk reader and a partial read\<close>

text \<open>
  Claim C7 says that a partial read of \<open>r\<close> bytes, \<open>0 < r < l\<close>, advances the write cursor
  by \<open>r\<close>, so that no byte read from the file is dropped. The loop advances the cursor
  only in the branch \<^verbatim>\<open>r == l\<close>, and ends only at \<^verbatim>\<open>r == 0\<close>; for \<open>0 < r < l\<close> it does
  neither. Here the file holds two bytes after the header and the reader asks for eight:
  the two bytes are read (the offset moves to the end of the file), the write cursor
  stays, the next turn finds the end of the file, and the queue never holds the two
  bytes.
\<close>

theorem partial_read_is_dropped:
  "disk_offset example_reader = 6
   \<and> os_read (disk_file example_reader) (disk_offset example_reader) 8 = [1, 2]
   \<and> limit_blocksize (initial_config\<lparr>ports := 1\<rparr>)
        (vec_len (jack_ringbuffer_get_write_vector (buffer example_reader) ! 0)) = 8
   \<and> rb_write_ptr (buffer (disk_read_iter (initial_config\<lparr>ports := 1\<rparr>) example_reader))
       = rb_write_ptr (buffer example_reader)
   \<and> rb_contents (buffer (disk_read_iter (initial_config\<lparr>ports := 1\<rparr>) example_reader)) = []
   \<and> disk_offset (disk_read_iter (initial_config\<lparr>ports := 1\<rparr>) example_reader) = 8
   \<and> eof (status (disk_read_iter (initial_config\<lparr>ports := 1\<rparr>) example_reader)) = 0
   \<and> eof (status (disk_read_iter (initial_config\<lparr>ports := 1\<rparr>)
        (disk_read_iter (initial_config\<lparr>ports := 1\<rparr>) example_reader))) = 1
   \<and> rb_contents (buffer (disk_read_iter (initial_config\<lparr>ports := 1\<rparr>)
        (disk_read_iter (initial_config\<lparr>ports := 1\<rparr>) example_reader))) = []"
proof -
  have r: "example_reader = \<lparr>status = initial_status,
      buffer = \<lparr>rb_buf = replicate 8 0, rb_write_ptr = 0, rb_read_ptr = 0\<rparr>,
      disk_mutex = True, disk_file = [74, 65, 67, 75, 49, 0, 1, 2], disk_offset = 6,
      disk_running = True, trace = [Mutex_lock]\<rparr>"
    by (simp add: example_reader_def disk_read_start_def initial_world_def example_short_file_def
        os_read_def FILE_HEADER_LEN_def jack_ringbuffer_create_def Let_def)
  have l: "limit_blocksize (initial_config\<lparr>ports := 1\<rparr>)
        (vec_len (jack_ringbuffer_get_write_vector (buffer example_reader) ! 0)) = 8"
    by (simp add: r limit_blocksize_def jack_ringbuffer_get_write_vector_def
        jack_ringbuffer_write_space_def jack_ringbuffer_read_space_def initial_config_def
        size_t_of_int_def)
  have i1: "disk_read_iter (initial_config\<lparr>ports := 1\<rparr>) example_reader
      = \<lparr>status = initial_status\<lparr>disk_io := 1, disk_bytes := 8\<rparr>,
      buffer = \<lparr>rb_buf = rb_store (replicate 8 0) 0 [1, 2], rb_write_ptr = 0, rb_read_ptr = 0\<rparr>,
      disk_mutex = True, disk_file = [74, 65, 67, 75, 49, 0, 1, 2], disk_offset = 8,
      disk_running = True, trace = [Mutex_lock]\<rparr>"
    unfolding disk_read_iter_def Let_def l
    by (simp add: r jack_ringbuffer_write_space_def jack_ringbuffer_read_space_def
        jack_ringbuffer_get_write_vector_def os_read_def initial_status_def)
  have l2: "limit_blocksize (initial_config\<lparr>ports := 1\<rparr>)
        (vec_len (jack_ringbuffer_get_write_vector
           (buffer (disk_read_iter (initial_config\<lparr>ports := 1\<rparr>) example_reader)) ! 0)) = 8"
    unfolding i1
    by (simp add: limit_blocksize_def jack_ringbuffer_get_write_vector_def
        jack_ringbuffer_write_space_def jack_ringbuffer_read_space_def initial_config_def
        size_t_of_int_def)
  have i2: "eof (status (disk_read_iter (initial_config\<lparr>ports := 1\<rparr>)
        (disk_read_iter (initial_config\<lparr>ports := 1\<rparr>) example_reader))) = 1"
    "buffer (disk_read_iter (initial_config\<lparr>ports := 1\<rparr>)
        (disk_read_iter (initial_config\<lparr>ports := 1\<rparr>) example_reader))
      = \<lparr>rb_buf = rb_store (replicate 8 0) 0 [1, 2], rb_write_ptr = 0, rb_read_ptr = 0\<rparr>"
    unfolding disk_read_iter_def [of _ "disk_read_iter _ _"] Let_def l2
    unfolding i1
    by (simp_all add: jack_ringbuffer_write_space_def jack_ringbuffer_read_space_def
        jack_ringbuffer_get_write_vector_def os_read_def initial_status_def disk_exit_def)
  show ?thesis
    unfolding l i2 unfolding i1
    by (simp add: rb_contents_def rb_span_def initial_status_def)
      (simp add: r os_read_def)
qed

section \<open>Capture to a file\<close>

lemma create_facts:
  "rb_wf (jack_ringbuffer_create n)" "rb_contents (jack_ringbuffer_create n) = []"
  "jack_ringbuffer_write_space (jack_ringbuffer_create n) = n"
  "jack_ringbuffer_read_space (jack_ringbuffer_create n) = 0"
  by (simp_all add: rb_wf_def rb_contents_def jack_ringbuffer_create_def rb_span_def
      jack_ringbuffer_write_space_def jack_ringbuffer_read_space_def)

lemma read_advance_contents:
  "rb_contents (jack_ringbuffer_read_advance rb l) = drop l (rb_contents rb)"
  by (simp add: jack_ringbuffer_read_advance_def rb_contents_def rb_span_drop)

lemma read_advance_wf:
  "rb_wf rb \<Longrightarrow> l \<le> jack_ringbuffer_read_space rb \<Longrightarrow> rb_wf (jack_ringbuffer_read_advance rb l)"
  by (auto simp: jack_ringbuffer_read_advance_def rb_wf_def jack_ringbuffer_read_space_def)

lemma os_write_length:
  "length (fst (os_write wres file (take l cs))) + length (drop l cs) \<le> length file + length cs"
  by (cases wres) auto

lemma os_write_all:
  assumes "length (fst (os_write wres file (take l cs))) + length (drop l cs) = length file + length cs"
  shows "fst (os_write wres file (take l cs)) @ drop l cs = file @ cs"
proof (cases wres)
  case (Io_bytes k)
  have "take k (take l cs) = take l cs"
  proof (cases "l \<le> length cs")
    case True
    with assms Io_bytes have "l \<le> k" by (simp add: min_def split: if_splits)
    then show ?thesis by (simp add: min_def)
  next
    case False
    with assms Io_bytes have "length cs \<le> k" by (simp add: min_def split: if_splits)
    then show ?thesis using False by simp
  qed
  then show ?thesis using Io_bytes by simp
next
  case Io_error
  with assms have "length cs - l = length cs" by simp
  then have "l = 0 \<or> length cs = 0" by arith
  then show ?thesis using Io_error by auto
qed

text \<open>A turn of the disk writer never adds bytes, and keeps them all only if it keeps their order.\<close>

lemma disk_write_step_bytes:
  assumes "rb_wf (buffer g)"
  shows "rb_wf (buffer (disk_write_step c wres g))"
    and "length (disk_file (disk_write_step c wres g))
           + length (rb_contents (buffer (disk_write_step c wres g)))
         \<le> length (disk_file g) + length (rb_contents (buffer g))"
    and "length (disk_file (disk_write_step c wres g))
           + length (rb_contents (buffer (disk_write_step c wres g)))
         = length (disk_file g) + length (rb_contents (buffer g))
       \<Longrightarrow> disk_file (disk_write_step c wres g) @ rb_contents (buffer (disk_write_step c wres g))
           = disk_file g @ rb_contents (buffer g)"
    and "overflows (status (disk_write_step c wres g)) = overflows (status g)"
proof -
  let ?g1 = "g\<lparr>disk_mutex := True\<rparr>"
  let ?l = "limit_blocksize c (vec_len (jack_ringbuffer_get_read_vector (buffer g) ! 0))"
  have "disk_write_step c wres g = g \<or> disk_write_step c wres g = disk_exit g
      \<or> disk_write_step c wres g = cond_wait ?g1
      \<or> (0 < jack_ringbuffer_read_space (buffer g)
          \<and> disk_write_step c wres g = disk_write_iter c wres ?g1)"
  proof (cases "0 < jack_ringbuffer_read_space (buffer g)")
    case True
    then show ?thesis by (simp add: disk_write_step_def)
  next
    case False
    then show ?thesis by (simp add: disk_write_step_def disk_write_iter_def Let_def)
  qed
  then have "rb_wf (buffer (disk_write_step c wres g))
    \<and> length (disk_file (disk_write_step c wres g))
           + length (rb_contents (buffer (disk_write_step c wres g)))
         \<le> length (disk_file g) + length (rb_contents (buffer g))
    \<and> (length (disk_file (disk_write_step c wres g))
           + length (rb_contents (buffer (disk_write_step c wres g)))
         = length (disk_file g) + length (rb_contents (buffer g))
       \<longrightarrow> disk_file (disk_write_step c wres g) @ rb_contents (buffer (disk_write_step c wres g))
           = disk_file g @ rb_contents (buffer g))
    \<and> overflows (status (disk_write_step c wres g)) = overflows (status g)"
  proof (elim disjE conjE)
    assume "disk_write_step c wres g = g"
    then show ?thesis using assms by simp
  next
    assume "disk_write_step c wres g = disk_exit g"
    then show ?thesis using assms by (simp add: disk_exit_def)
  next
    assume "disk_write_step c wres g = cond_wait ?g1"
    then show ?thesis using assms by (simp add: cond_wait_def)
  next
    assume io: "0 < jack_ringbuffer_read_space (buffer g)"
      "disk_write_step c wres g = disk_write_iter c wres ?g1"
    have wf1: "rb_wf (buffer ?g1)" and sp1: "0 < jack_ringbuffer_read_space (buffer ?g1)"
      using assms io(1) by simp_all
    note s = disk_write_iter_io [OF wf1 sp1, of c wres, simplified]
    have "?l \<le> jack_ringbuffer_read_space (buffer g)"
      using limit_blocksize_le [of c] read_vector_first(3) [OF assms io(1)] by (rule order_trans)
    then have wf: "rb_wf (jack_ringbuffer_read_advance (buffer g) ?l)"
      using assms by (intro read_advance_wf)
    show ?thesis
      unfolding io(2) s(1,2) read_advance_contents
      using wf os_write_length [of wres "disk_file g" ?l "rb_contents (buffer g)"]
        os_write_all [of wres "disk_file g" ?l "rb_contents (buffer g)"] s(5)
      by simp
  qed
  then show "rb_wf (buffer (disk_write_step c wres g))"
    and "length (disk_file (disk_write_step c wres g))
           + length (rb_contents (buffer (disk_write_step c wres g)))
         \<le> length (disk_file g) + length (rb_contents (buffer g))"
    and "length (disk_file (disk_write_step c wres g))
           + length (rb_contents (buffer (disk_write_step c wres g)))
         = length (disk_file g) + length (rb_contents (buffer g))
       \<Longrightarrow> disk_file (disk_write_step c wres g) @ rb_contents (buffer (disk_write_step c wres g))
           = disk_file g @ rb_contents (buffer g)"
    and "overflows (status (disk_write_step c wres g)) = overflows (status g)"
    by simp_all
qed

lemma capture_unchanged_counter:
  assumes "overflows (status (fst (jack_capture_callback c nframes bufs g))) = overflows (status g)"
  shows "\<not> jack_ringbuffer_write_space (buffer g) < required_bytes nframes (ports c)"
proof
  assume "jack_ringbuffer_write_space (buffer g) < required_bytes nframes (ports c)"
  from capture_overflow [OF this, of bufs] assms show False by simp
qed

lemma capture_turn_inv:
  assumes "capture_inv hdr g acc" "0 \<le> ports c" "ports c \<le> 32" "nframes < 2 ^ 31"
    "overflows (status (fst (jack_capture_callback c nframes bufs g))) = overflows (status g)"
  shows "capture_inv hdr (fst (jack_capture_callback c nframes bufs g))
           (acc @ samples_bytes (frame_interleaved (nat (ports c)) nframes bufs))"
proof -
  note ok = capture_unchanged_counter [OF assms(5)]
  have wf: "rb_wf (buffer g)" using assms(1) by (simp add: capture_inv_def)
  have fit: "nframes * nat (ports c) * 4 \<le> jack_ringbuffer_write_space (buffer g)"
    using ok by (simp add: required_bytes_nowrap [OF assms(4,2,3)])
  note s = capture_frames_spec [OF wf fit, of bufs]
  show ?thesis
    using assms(1) s by (simp add: capture_inv_def capture_success [OF ok])
qed

declare length_frame_interleaved [simp]

lemma capture_run_inv:
  assumes "capture_inv hdr g acc" "no_overflow c evs g" "capture_periods evs"
    "0 \<le> ports c" "ports c \<le> 32"
  shows "capture_inv hdr (capture_run c evs g) (acc @ samples_bytes (captured c evs))"
  using assms(1,2,3)
proof (induction evs arbitrary: g acc)
  case Nil
  then show ?case by (simp add: samples_bytes_def)
next
  case (Cons e evs)
  show ?case
  proof (cases e)
    case (Jack_capture nframes bufs)
    have "capture_inv hdr (capture_turn c e g)
        (acc @ samples_bytes (frame_interleaved (nat (ports c)) nframes bufs))"
      using Cons.prems Jack_capture capture_turn_inv [OF Cons.prems(1) assms(4,5), of nframes bufs]
      by simp
    from Cons.IH [OF this] Cons.prems(2,3) show ?thesis
      using Jack_capture by simp
  next
    case (Disk_write wres)
    have wf: "rb_wf (buffer g)" using Cons.prems(1) by (simp add: capture_inv_def)
    note s = disk_write_step_bytes [OF wf, of c wres]
    have "capture_inv hdr (capture_turn c e g) acc"
      using Cons.prems(1) s(1,2) s(3) Disk_write by (auto simp: capture_inv_def)
    from Cons.IH [OF this] Cons.prems(2,3) show ?thesis
      using Disk_write by simp
  qed
qed

lemma length_captured:
  "length (captured c evs) = capture_frames_total evs * nat (ports c)"
  by (induction c evs rule: captured.induct) (simp_all add: algebra_simps)

lemma file_header_nonempty: "file_header p \<noteq> []"
  by (simp add: file_header_def)

lemma capture_start_inv:
  assumes "disk_file g = []" "rb_contents (buffer g) = []" "rb_wf (buffer g)"
  shows "capture_inv (file_header (ports c)) (disk_write_start c opened hw g) []"
proof (cases hw)
  case (Io_bytes k)
  have "length (file_header (ports c)) \<le> k \<Longrightarrow> take k (file_header (ports c)) = file_header (ports c)"
    by simp
  then show ?thesis
    using assms Io_bytes file_header_nonempty [of "ports c"]
    by (auto simp: capture_inv_def disk_write_start_def min_def)
next
  case Io_error
  then show ?thesis
    using assms file_header_nonempty [of "ports c"]
    by (auto simp: capture_inv_def disk_write_start_def)
qed

section \<open>Replay of a file\<close>

lemma rb_store_cong_mod:
  "p mod length buf = q mod length buf \<Longrightarrow> rb_store buf p bs = rb_store buf q bs"
proof (induction bs arbitrary: buf p q)
  case Nil
  then show ?case by simp
next
  case (Cons b bs)
  have "Suc p mod length buf = Suc q mod length buf"
    using Cons.prems mod_Suc_eq [of p "length buf"] mod_Suc_eq [of q "length buf"] by simp
  then have "rb_store (buf[p mod length buf := b]) (Suc p) bs
      = rb_store (buf[p mod length buf := b]) (Suc q) bs"
    by (intro Cons.IH) simp
  then show ?case using Cons.prems by simp
qed

lemma rb_store_mod: "rb_store buf (p mod length buf) bs = rb_store buf p bs"
  by (rule rb_store_cong_mod) simp

lemma write_advance_is_write:
  assumes "length bs \<le> jack_ringbuffer_write_space rb"
  shows "jack_ringbuffer_write_advance
           (rb\<lparr>rb_buf := rb_store (rb_buf rb) (rb_write_ptr rb mod length (rb_buf rb)) bs\<rparr>)
           (length bs)
         = fst (jack_ringbuffer_write rb bs)"
  using assms
  by (simp add: jack_ringbuffer_write_advance_def jack_ringbuffer_write_def Let_def rb_store_mod
      min_def)

lemma store_unread_contents:
  assumes "rb_wf rb" "length bs \<le> jack_ringbuffer_write_space rb"
  shows "rb_contents (rb\<lparr>rb_buf := rb_store (rb_buf rb) (rb_write_ptr rb mod length (rb_buf rb)) bs\<rparr>)
           = rb_contents rb"
    and "rb_wf (rb\<lparr>rb_buf := rb_store (rb_buf rb) (rb_write_ptr rb mod length (rb_buf rb)) bs\<rparr>)"
proof -
  have "rb_read_ptr rb \<le> rb_write_ptr rb"
    "rb_write_ptr rb - rb_read_ptr rb + length bs \<le> length (rb_buf rb)"
    using assms by (auto simp: rb_wf_def jack_ringbuffer_write_space_def jack_ringbuffer_read_space_def)
  from rb_span_store_old [OF this]
  show "rb_contents (rb\<lparr>rb_buf := rb_store (rb_buf rb) (rb_write_ptr rb mod length (rb_buf rb)) bs\<rparr>)
      = rb_contents rb"
    by (simp add: rb_contents_def rb_store_mod)
  show "rb_wf (rb\<lparr>rb_buf := rb_store (rb_buf rb) (rb_write_ptr rb mod length (rb_buf rb)) bs\<rparr>)"
    using assms(1) by (simp add: rb_wf_def)
qed

text \<open>The body of the reader's loop when there is room, by the outcome of \<^verbatim>\<open>read\<close>.\<close>

lemma disk_read_iter_io:
  assumes "0 < jack_ringbuffer_write_space (buffer g)"
  shows "disk_read_iter c g =
    (let l = limit_blocksize c (vec_len (jack_ringbuffer_get_write_vector (buffer g) ! 0));
         bytes = os_read (disk_file g) (disk_offset g) l;
         g2 = g\<lparr>status := (status g)\<lparr>disk_io := disk_io (status g) + 1,
                                     disk_bytes := disk_bytes (status g) + of_nat l\<rparr>,
                disk_offset := disk_offset g + length bytes,
                buffer := (buffer g)\<lparr>rb_buf := rb_store (rb_buf (buffer g))
                    (rb_write_ptr (buffer g) mod length (rb_buf (buffer g))) bytes\<rparr>\<rparr>
     in if length bytes \<noteq> l
        then (if length bytes = 0
              then disk_exit (g2\<lparr>status := (status g2)\<lparr>eof := 1\<rparr>,
                                 trace := trace g2 @ [Stderr Msg_read_eof]\<rparr>)
              else g2)
        else g2\<lparr>buffer := jack_ringbuffer_write_advance (buffer g2) l\<rparr>)"
  using assms write_vector_first(1,2) [OF assms]
  by (simp add: disk_read_iter_def Let_def)

lemma disk_read_iter_bytes:
  assumes "rb_wf (buffer g)" "disk_running g"
  shows "rb_wf (buffer (disk_read_iter c g))
    \<and> prefix (rb_contents (buffer (disk_read_iter c g)) @ unread (disk_read_iter c g))
        (rb_contents (buffer g) @ unread g)
    \<and> disk_file (disk_read_iter c g) = disk_file g
    \<and> underruns (status (disk_read_iter c g)) = underruns (status g)"
proof (cases "0 < jack_ringbuffer_write_space (buffer g)")
  case False
  then show ?thesis
    using assms by (simp add: disk_read_iter_def cond_wait_def unread_def)
next
  case True
  let ?l = "limit_blocksize c (vec_len (jack_ringbuffer_get_write_vector (buffer g) ! 0))"
  let ?bytes = "os_read (disk_file g) (disk_offset g) ?l"
  note v = write_vector_first [OF True]
  have l: "?l \<le> jack_ringbuffer_write_space (buffer g)"
    using limit_blocksize_le [of c] v(3) by (rule order_trans)
  have len: "length ?bytes \<le> ?l" by (simp add: os_read_def)
  then have fit: "length ?bytes \<le> jack_ringbuffer_write_space (buffer g)"
    using l by simp
  note st = store_unread_contents [OF assms(1) fit]
  consider (full) "length ?bytes = ?l" | (eof) "length ?bytes \<noteq> ?l" "length ?bytes = 0"
    | (part) "length ?bytes \<noteq> ?l" "length ?bytes \<noteq> 0"
    by blast
  then show ?thesis
  proof cases
    case full
    have b: "buffer (disk_read_iter c g) = fst (jack_ringbuffer_write (buffer g) ?bytes)"
      using full write_advance_is_write [OF fit]
      by (simp add: disk_read_iter_io [OF True] Let_def)
    have o: "disk_offset (disk_read_iter c g) = disk_offset g + ?l"
      "disk_running (disk_read_iter c g)" "disk_file (disk_read_iter c g) = disk_file g"
      "underruns (status (disk_read_iter c g)) = underruns (status g)"
      using full assms(2) by (simp_all add: disk_read_iter_io [OF True] Let_def)
    have "?bytes @ drop (disk_offset g + ?l) (disk_file g) = drop (disk_offset g) (disk_file g)"
      using append_take_drop_id [of ?l "drop (disk_offset g) (disk_file g)"]
      by (simp add: os_read_def add.commute)
    then show ?thesis
      using assms rb_write_contents [OF assms(1) fit] rb_write_wf [OF assms(1), of ?bytes]
      by (simp add: b o unread_def)
  next
    case eof
    then have "disk_read_iter c g
        = disk_exit (g\<lparr>status := (status g)\<lparr>disk_io := disk_io (status g) + 1,
                                     disk_bytes := disk_bytes (status g) + of_nat ?l, eof := 1\<rparr>,
            disk_offset := disk_offset g,
            buffer := (buffer g)\<lparr>rb_buf := rb_store (rb_buf (buffer g))
                    (rb_write_ptr (buffer g) mod length (rb_buf (buffer g))) ?bytes\<rparr>,
            trace := trace g @ [Stderr Msg_read_eof]\<rparr>)"
      by (simp add: disk_read_iter_io [OF True] Let_def)
    then show ?thesis
      using st by (simp add: disk_exit_def unread_def)
  next
    case part
    then have e: "disk_read_iter c g
        = g\<lparr>status := (status g)\<lparr>disk_io := disk_io (status g) + 1,
                                     disk_bytes := disk_bytes (status g) + of_nat ?l\<rparr>,
            disk_offset := disk_offset g + length ?bytes,
            buffer := (buffer g)\<lparr>rb_buf := rb_store (rb_buf (buffer g))
                    (rb_write_ptr (buffer g) mod length (rb_buf (buffer g))) ?bytes\<rparr>\<rparr>"
      by (simp add: disk_read_iter_io [OF True] Let_def)
    have "length ?bytes < ?l" using part(1) len by simp
    then have "drop (disk_offset g + length ?bytes) (disk_file g) = []"
      by (simp add: os_read_def min_def split: if_splits)
    then show ?thesis
      using st assms(2) by (simp add: e unread_def)
  qed
qed

lemma disk_read_step_bytes:
  assumes "rb_wf (buffer g)"
  shows "rb_wf (buffer (disk_read_step c g))
    \<and> prefix (rb_contents (buffer (disk_read_step c g)) @ unread (disk_read_step c g))
        (rb_contents (buffer g) @ unread g)
    \<and> disk_file (disk_read_step c g) = disk_file g
    \<and> underruns (status (disk_read_step c g)) = underruns (status g)"
proof -
  have "disk_read_step c g = g \<or> disk_read_step c g = disk_exit g
      \<or> (disk_running g \<and> disk_read_step c g = disk_read_iter c (g\<lparr>disk_mutex := True\<rparr>))"
    by (simp add: disk_read_step_def)
  then show ?thesis
  proof (elim disjE conjE)
    assume "disk_read_step c g = g"
    then show ?thesis using assms by simp
  next
    assume "disk_read_step c g = disk_exit g"
    then show ?thesis using assms by (simp add: disk_exit_def unread_def)
  next
    assume r: "disk_running g" "disk_read_step c g = disk_read_iter c (g\<lparr>disk_mutex := True\<rparr>)"
    have "rb_wf (buffer (g\<lparr>disk_mutex := True\<rparr>))" "disk_running (g\<lparr>disk_mutex := True\<rparr>)"
      using assms r(1) by simp_all
    moreover have "unread (g\<lparr>disk_mutex := True\<rparr>) = unread g"
      by (simp add: unread_def)
    ultimately show ?thesis
      using disk_read_iter_bytes [of "g\<lparr>disk_mutex := True\<rparr>" c] by (simp add: r(2))
  qed
qed

lemma playback_unchanged_counter:
  assumes "underruns (status (fst (jack_playback_callback c nframes bufs g))) = underruns (status g)"
  shows "\<not> jack_ringbuffer_read_space (buffer g) < required_bytes nframes (ports c)"
proof
  assume "jack_ringbuffer_read_space (buffer g) < required_bytes nframes (ports c)"
  from playback_underrun [OF this, of bufs] assms show False by (simp split: if_splits)
qed

lemma read_cursor_wf:
  assumes "rb_wf rb" "n \<le> jack_ringbuffer_read_space rb"
    "rb_read_ptr rb' = rb_read_ptr rb + n" "rb_write_ptr rb' = rb_write_ptr rb"
    "rb_buf rb' = rb_buf rb"
  shows "rb_wf rb'"
  using assms by (auto simp: rb_wf_def jack_ringbuffer_read_space_def)

lemma playback_turn_bytes:
  assumes "rb_wf (buffer g)" "0 \<le> ports c" "ports c \<le> 32" "nframes < 2 ^ 31"
    "port_buffers (nat (ports c)) nframes bufs"
    "underruns (status (fst (jack_playback_callback c nframes bufs g))) = underruns (status g)"
  shows "rb_wf (buffer (fst (jack_playback_callback c nframes bufs g)))"
    and "samples_bytes (frame_interleaved (nat (ports c)) nframes
            (fst (snd (jack_playback_callback c nframes bufs g))))
           @ rb_contents (buffer (fst (jack_playback_callback c nframes bufs g)))
         = rb_contents (buffer g)"
    and "unread (fst (jack_playback_callback c nframes bufs g)) = unread g"
proof -
  note ok = playback_unchanged_counter [OF assms(6)]
  have fit: "nframes * nat (ports c) * 4 \<le> jack_ringbuffer_read_space (buffer g)"
    using ok by (simp add: required_bytes_nowrap [OF assms(4,2,3)])
  obtain rb' bufs' where r: "playback_frames (ports c) nframes (buffer g, bufs) = (rb', bufs')"
    by (cases "playback_frames (ports c) nframes (buffer g, bufs)")
  from playback_frames_spec [OF assms(5) fit] r
  have s: "samples_bytes (frame_interleaved (nat (ports c)) nframes bufs')
        = take (nframes * nat (ports c) * 4) (rb_contents (buffer g))"
    "rb_contents rb' = drop (nframes * nat (ports c) * 4) (rb_contents (buffer g))"
    "rb_read_ptr rb' = rb_read_ptr (buffer g) + nframes * nat (ports c) * 4"
    "rb_write_ptr rb' = rb_write_ptr (buffer g)"
    "rb_buf rb' = rb_buf (buffer g)"
    by simp_all
  have "rb_wf rb'"
    using assms(1) fit s(3,4,5) by (rule read_cursor_wf)
  then show "rb_wf (buffer (fst (jack_playback_callback c nframes bufs g)))"
    by (simp add: playback_success [OF ok] r)
  show "samples_bytes (frame_interleaved (nat (ports c)) nframes
            (fst (snd (jack_playback_callback c nframes bufs g))))
           @ rb_contents (buffer (fst (jack_playback_callback c nframes bufs g)))
         = rb_contents (buffer g)"
    using s(1,2) by (simp add: playback_success [OF ok] r)
  show "unread (fst (jack_playback_callback c nframes bufs g)) = unread g"
    by (simp add: playback_success [OF ok] unread_def)
qed

lemma replay_prefix:
  assumes "rb_wf (buffer g)" "no_underrun c evs g" "replay_periods c evs"
    "0 \<le> ports c" "ports c \<le> 32"
  shows "prefix (samples_bytes (replayed c evs g)) (rb_contents (buffer g) @ unread g)"
  using assms(1,2,3)
proof (induction evs arbitrary: g)
  case Nil
  then show ?case by (simp add: samples_bytes_def)
next
  case (Cons e evs)
  show ?case
  proof (cases e)
    case (Jack_playback nframes bufs)
    have p: "nframes < 2 ^ 31" "port_buffers (nat (ports c)) nframes bufs"
      "underruns (status (fst (jack_playback_callback c nframes bufs g))) = underruns (status g)"
      using Cons.prems Jack_playback by simp_all
    note s = playback_turn_bytes [OF Cons.prems(1) assms(4,5) p]
    have "prefix (samples_bytes (replayed c evs (replay_turn c e g)))
        (rb_contents (buffer (replay_turn c e g)) @ unread (replay_turn c e g))"
      using Cons.prems Jack_playback s(1) by (intro Cons.IH) simp_all
    then have "prefix (samples_bytes (frame_interleaved (nat (ports c)) nframes
            (fst (snd (jack_playback_callback c nframes bufs g))))
          @ samples_bytes (replayed c evs (replay_turn c e g)))
        ((samples_bytes (frame_interleaved (nat (ports c)) nframes
            (fst (snd (jack_playback_callback c nframes bufs g))))
          @ rb_contents (buffer (fst (jack_playback_callback c nframes bufs g)))) @ unread g)"
      using Jack_playback s(3) by simp
    then show ?thesis
      unfolding s(2) using Jack_playback by simp
  next
    case Disk_read
    note s = disk_read_step_bytes [OF Cons.prems(1), of c]
    have "prefix (samples_bytes (replayed c evs (replay_turn c e g)))
        (rb_contents (buffer (replay_turn c e g)) @ unread (replay_turn c e g))"
      using Cons.prems Disk_read s by (intro Cons.IH) simp_all
    moreover have "prefix (rb_contents (buffer (replay_turn c e g)) @ unread (replay_turn c e g))
        (rb_contents (buffer g) @ unread g)"
      using s Disk_read by simp
    ultimately have "prefix (samples_bytes (replayed c evs (replay_turn c e g)))
        (rb_contents (buffer g) @ unread g)"
      by (rule prefix_order.trans)
    then show ?thesis using Disk_read by simp
  qed
qed

lemma length_replayed:
  "length (replayed c evs g) = replay_frames_total evs * nat (ports c)"
  by (induction c evs g rule: replayed.induct) (simp_all add: algebra_simps)

lemma samples_bytes_inj: "samples_bytes xs = samples_bytes ys \<Longrightarrow> xs = ys"
proof (induction xs arbitrary: ys)
  case Nil
  from arg_cong [OF Nil.prems, of length] show ?case by simp
next
  case (Cons x xs)
  from arg_cong [OF Cons.prems, of length] obtain y ys' where ys: "ys = y # ys'"
    by (cases ys) simp_all
  from Cons.prems have "sample_bytes x @ samples_bytes xs = sample_bytes y @ samples_bytes ys'"
    by (simp add: ys samples_bytes_def)
  then have "sample_bytes x = sample_bytes y" "samples_bytes xs = samples_bytes ys'"
    by simp_all
  moreover from this(1) have "x = y" by (cases x; cases y) simp
  ultimately show ?case using Cons.IH ys by simp
qed

lemma disk_read_start_state:
  assumes "disk_offset p = 0" "\<not> disk_running p"
  shows "buffer (disk_read_start c opened p) = buffer p"
    and "unread (disk_read_start c opened p) = drop FILE_HEADER_LEN (disk_file p)
         \<or> unread (disk_read_start c opened p) = []"
  using assms by (auto simp: disk_read_start_def unread_def os_read_def Let_def)

section \<open>Capture and replay\<close>

text \<open>
  The round trip for one to nine ports. A signal is captured to a new file, in any
  sequence of turns of the callback and the disk writer and whatever \<^verbatim>\<open>write\<close> does, with no
  overflow; the file is replayed, in any sequence of turns of the disk reader and the
  callback, with no underrun, for as many frames as were captured. Then the samples that
  reach the output ports are, frame by frame and channel by channel, the samples that
  were captured. (A short write or a partial read loses bytes; the replay then cannot
  deliver all the frames without an underrun.)
\<close>

theorem capture_replay_roundtrip:
  assumes "1 \<le> ports c" "ports c \<le> 9" "ports c' = ports c"
    and "disk_file g = []" "rb_wf (buffer g)" "rb_contents (buffer g) = []"
    and "capture_periods cevs" "no_overflow c cevs (disk_write_start c opened hw g)"
    and "disk_file p = disk_file (capture_run c cevs (disk_write_start c opened hw g))"
    and "disk_offset p = 0" "\<not> disk_running p" "rb_wf (buffer p)" "rb_contents (buffer p) = []"
    and "replay_periods c' pevs" "no_underrun c' pevs (disk_read_start c' opened' p)"
    and "replay_frames_total pevs = capture_frames_total cevs"
  shows "replayed c' pevs (disk_read_start c' opened' p) = captured c cevs"
proof -
  let ?hdr = "file_header (ports c)"
  let ?A = "samples_bytes (captured c cevs)"
  let ?R = "samples_bytes (replayed c' pevs (disk_read_start c' opened' p))"
  let ?gf = "capture_run c cevs (disk_write_start c opened hw g)"
  have n: "0 \<le> ports c" "ports c \<le> 32" "0 \<le> ports c'" "ports c' \<le> 32"
    using assms(1,2,3) by simp_all
  have hl: "length ?hdr = 6"
    using file_header_one_digit(2) [of "ports c"] assms(1,2) by (simp add: FILE_HEADER_LEN_def)
  have "capture_inv ?hdr ?gf ([] @ ?A)"
    using capture_start_inv [OF assms(4,6,5)] assms(8,7) n(1,2) by (rule capture_run_inv)
  then have inv: "length (disk_file ?gf) + length (rb_contents (buffer ?gf)) \<le> 6 + length ?A"
    "length (disk_file ?gf) + length (rb_contents (buffer ?gf)) = 6 + length ?A
       \<Longrightarrow> disk_file ?gf @ rb_contents (buffer ?gf) = ?hdr @ ?A"
    by (simp_all add: capture_inv_def hl)
  note st = disk_read_start_state [OF assms(10,11), of c' opened']
  have "prefix ?R (rb_contents (buffer (disk_read_start c' opened' p))
      @ unread (disk_read_start c' opened' p))"
    using assms(12,15,14) n(3,4) by (intro replay_prefix) (simp_all add: st(1))
  then have pre: "prefix ?R (drop 6 (disk_file ?gf))"
    using st(2) assms(9,13) by (auto simp: st(1) FILE_HEADER_LEN_def)
  have len: "length ?R = length ?A"
    using assms(16,3) by (simp add: length_replayed length_captured)
  have "?R = ?A"
  proof (cases "length ?A = 0")
    case True
    then show ?thesis using len by simp
  next
    case False
    have "length ?R \<le> length (disk_file ?gf) - 6"
      using prefix_length_le [OF pre] by simp
    then have "6 + length ?A \<le> length (disk_file ?gf)"
      using len False by arith
    then have full: "length (disk_file ?gf) + length (rb_contents (buffer ?gf)) = 6 + length ?A"
      and "length (rb_contents (buffer ?gf)) = 0"
      using inv(1) by arith+
    then have empty: "rb_contents (buffer ?gf) = []" by simp
    from inv(2) [OF full] have "disk_file ?gf = ?hdr @ ?A"
      using empty by simp
    then have "drop 6 (disk_file ?gf) = ?A" using hl by simp
    with pre obtain zs where zs: "?A = ?R @ zs" by (auto elim: prefixE)
    from arg_cong [OF zs, of length] len have "zs = []" by simp
    then show ?thesis using zs by simp
  qed
  then show ?thesis by (rule samples_bytes_inj)
qed

text \<open>The hypotheses can be met: one port, one frame.\<close>

lemma one_required: "required_bytes (Suc 0) 1 = 4" "required_bytes 1 1 = 4"
  using required_bytes_nowrap [of 1 1] by simp_all

lemma one_header: "file_header 1 = [74, 65, 67, 75, 49, 0]"
  by (simp add: file_header_def sprintf_d_def char_of_def bit_iff_odd)

lemma one_capture_start:
  "disk_write_start one_port True (Io_bytes 6) (small_world [])
    = \<lparr>status = initial_status,
       buffer = \<lparr>rb_buf = [0, 0, 0, 0], rb_write_ptr = 0, rb_read_ptr = 0\<rparr>,
       disk_mutex = True, disk_file = [74, 65, 67, 75, 49, 0], disk_offset = 0,
       disk_running = True, trace = [Mutex_lock]\<rparr>"
  by (simp add: disk_write_start_def small_world_def initial_world_def one_port_def one_header
      jack_ringbuffer_create_def numeral_eq_Suc)

lemma one_capture_period:
  "capture_turn one_port (Jack_capture 1 [[Sample 1 2 3 4]])
     (disk_write_start one_port True (Io_bytes 6) (small_world []))
    = \<lparr>status = initial_status\<lparr>jack_calls := 1\<rparr>,
       buffer = \<lparr>rb_buf = [1, 2, 3, 4], rb_write_ptr = 4, rb_read_ptr = 0\<rparr>,
       disk_mutex = True, disk_file = [74, 65, 67, 75, 49, 0], disk_offset = 0,
       disk_running = True, trace = [Mutex_lock, Mutex_trylock False]\<rparr>"
  unfolding one_capture_start
  by (simp add: jack_capture_callback_def Let_def one_port_def jack_ringbuffer_write_space_def
      jack_ringbuffer_read_space_def one_required signal_disk_thread_def capture_frames_def
      capture_frame_def jack_ringbuffer_write_def initial_status_def)

lemma one_capture_write:
  "capture_run one_port one_capture_events
     (disk_write_start one_port True (Io_bytes 6) (small_world []))
    = \<lparr>status = initial_status\<lparr>jack_calls := 1, disk_io := 1, disk_bytes := 4\<rparr>,
       buffer = \<lparr>rb_buf = [1, 2, 3, 4], rb_write_ptr = 4, rb_read_ptr = 4\<rparr>,
       disk_mutex = True, disk_file = [74, 65, 67, 75, 49, 0, 1, 2, 3, 4], disk_offset = 0,
       disk_running = True, trace = [Mutex_lock, Mutex_trylock False]\<rparr>"
  unfolding one_capture_events_def capture_run.simps one_capture_period
  by (simp add: disk_write_step_def disk_write_iter_def Let_def jack_ringbuffer_read_space_def
      jack_ringbuffer_get_read_vector_def limit_blocksize_def one_port_def initial_config_def
      size_t_of_int_def jack_ringbuffer_read_advance_def initial_status_def)

lemma one_replay_start:
  "disk_read_start one_port True (small_world [74, 65, 67, 75, 49, 0, 1, 2, 3, 4])
    = \<lparr>status = initial_status,
       buffer = \<lparr>rb_buf = [0, 0, 0, 0], rb_write_ptr = 0, rb_read_ptr = 0\<rparr>,
       disk_mutex = True, disk_file = [74, 65, 67, 75, 49, 0, 1, 2, 3, 4], disk_offset = 6,
       disk_running = True, trace = [Mutex_lock]\<rparr>"
  by (simp add: disk_read_start_def small_world_def initial_world_def os_read_def
      FILE_HEADER_LEN_def Let_def jack_ringbuffer_create_def numeral_eq_Suc)

lemma one_replay_read:
  "replay_turn one_port Disk_read
     (disk_read_start one_port True (small_world [74, 65, 67, 75, 49, 0, 1, 2, 3, 4]))
    = \<lparr>status = initial_status\<lparr>disk_io := 1, disk_bytes := 4\<rparr>,
       buffer = \<lparr>rb_buf = [1, 2, 3, 4], rb_write_ptr = 4, rb_read_ptr = 0\<rparr>,
       disk_mutex = True, disk_file = [74, 65, 67, 75, 49, 0, 1, 2, 3, 4], disk_offset = 10,
       disk_running = True, trace = [Mutex_lock]\<rparr>"
  unfolding one_replay_start
  by (simp add: disk_read_step_def disk_read_iter_def Let_def jack_ringbuffer_write_space_def
      jack_ringbuffer_read_space_def jack_ringbuffer_get_write_vector_def limit_blocksize_def
      one_port_def initial_config_def size_t_of_int_def os_read_def
      jack_ringbuffer_write_advance_def initial_status_def)

lemma one_replay_period:
  "jack_playback_callback one_port 1 [[zero_sample]]
     (replay_turn one_port Disk_read
        (disk_read_start one_port True (small_world [74, 65, 67, 75, 49, 0, 1, 2, 3, 4])))
    = (\<lparr>status = initial_status\<lparr>jack_calls := 1, disk_io := 1, disk_bytes := 4\<rparr>,
       buffer = \<lparr>rb_buf = [1, 2, 3, 4], rb_write_ptr = 4, rb_read_ptr = 4\<rparr>,
       disk_mutex = True, disk_file = [74, 65, 67, 75, 49, 0, 1, 2, 3, 4], disk_offset = 10,
       disk_running = True, trace = [Mutex_lock, Mutex_trylock False]\<rparr>,
      [[Sample 1 2 3 4]], 0)"
  unfolding one_replay_read
  by (simp add: jack_playback_callback_def Let_def one_port_def jack_ringbuffer_read_space_def
      one_required signal_disk_thread_def playback_frames_def playback_frame_def
      playback_step_def jack_ringbuffer_read_def sizeof_sample_def rb_span_def
      initial_status_def zero_sample_def upt_rec [of _ 4] upt_rec [of _ "numeral n" for n])

theorem capture_replay_roundtrip_example:
  "no_overflow one_port one_capture_events
     (disk_write_start one_port True (Io_bytes 6) (small_world []))
   \<and> no_underrun one_port one_replay_events
       (disk_read_start one_port True (small_world (disk_file (capture_run one_port
          one_capture_events (disk_write_start one_port True (Io_bytes 6) (small_world []))))))
   \<and> replayed one_port one_replay_events
       (disk_read_start one_port True (small_world (disk_file (capture_run one_port
          one_capture_events (disk_write_start one_port True (Io_bytes 6) (small_world []))))))
       = [Sample 1 2 3 4]"
proof -
  let ?gs = "disk_write_start one_port True (Io_bytes 6) (small_world [])"
  let ?p = "small_world (disk_file (capture_run one_port one_capture_events ?gs))"
  have p: "?p = small_world [74, 65, 67, 75, 49, 0, 1, 2, 3, 4]"
    by (simp add: one_capture_write)
  have no: "no_overflow one_port one_capture_events ?gs"
    unfolding one_capture_events_def no_overflow.simps capture_turn.simps(2)
    unfolding one_capture_period
    unfolding one_capture_start
    by (simp add: initial_status_def disk_write_step_def disk_write_iter_def
        Let_def jack_ringbuffer_read_space_def jack_ringbuffer_get_read_vector_def
        limit_blocksize_def one_port_def initial_config_def size_t_of_int_def)
  have nu: "no_underrun one_port one_replay_events (disk_read_start one_port True ?p)"
    unfolding p one_replay_events_def no_underrun.simps replay_turn.simps(1)
    unfolding one_replay_period
    unfolding one_replay_read
    unfolding one_replay_start
    by (simp add: initial_status_def)
  have h: "1 \<le> ports one_port" "ports one_port \<le> 9"
    "disk_file (small_world []) = []" "rb_wf (buffer (small_world []))"
    "rb_contents (buffer (small_world [])) = []"
    "capture_periods one_capture_events"
    "disk_offset ?p = 0" "\<not> disk_running ?p" "rb_wf (buffer ?p)" "rb_contents (buffer ?p) = []"
    "replay_periods one_port one_replay_events"
    "replay_frames_total one_replay_events = capture_frames_total one_capture_events"
    by (simp_all add: one_port_def small_world_def initial_world_def create_facts
        one_capture_events_def one_replay_events_def port_buffers_def)
  have f: "disk_file ?p = disk_file (capture_run one_port one_capture_events ?gs)"
    by (simp add: small_world_def initial_world_def)
  from capture_replay_roundtrip [where c = one_port and c' = one_port and g = "small_world []"
      and cevs = one_capture_events and opened = True and hw = "Io_bytes 6" and p = ?p
      and pevs = one_replay_events and opened' = True,
      OF h(1,2) refl h(3,4,5,6) no f h(7,8,9,10,11) nu h(12)]
  have "replayed one_port one_replay_events (disk_read_start one_port True ?p)
      = captured one_port one_capture_events" .
  also have "\<dots> = [Sample 1 2 3 4]"
    by (simp add: one_capture_events_def one_port_def frame_interleaved_def)
  finally show ?thesis using no nu by simp
qed

section \<open>Capture and replay with ten ports\<close>

lemma ten_required: "required_bytes 1 10 = 40" "required_bytes (Suc 0) 10 = 40"
  using required_bytes_nowrap [of 1 10] by simp_all

lemma ten_captured:
  "captured ten_ports ten_capture_events = frame_interleaved 10 1 ten_buffers"
  "length (samples_bytes (frame_interleaved 10 1 ten_buffers)) = 40"
  "take 4 (samples_bytes (frame_interleaved 10 1 ten_buffers)) = [1, 2, 3, 4]"
proof -
  show "captured ten_ports ten_capture_events = frame_interleaved 10 1 ten_buffers"
    by (simp add: ten_capture_events_def ten_ports_def)
  show "length (samples_bytes (frame_interleaved 10 1 ten_buffers)) = 40"
    by simp
  have "frame_interleaved 10 1 ten_buffers
      = map (\<lambda>k. ten_buffers ! (k mod 10) ! (k div 10)) [0..<1 * 10]"
    unfolding frame_interleaved_def by (rule interleaved_index)
  also have "[0..<1 * 10] = 0 # [1..<10]"
    by (simp add: upt_rec)
  finally have "frame_interleaved 10 1 ten_buffers
      = Sample 1 2 3 4 # map (\<lambda>k. ten_buffers ! (k mod 10) ! (k div 10)) [1..<10]"
    by (simp add: ten_buffers_def)
  then show "take 4 (samples_bytes (frame_interleaved 10 1 ten_buffers)) = [1, 2, 3, 4]"
    by (simp add: samples_bytes_def)
qed

lemma ten_capture_start_state:
  "disk_file ten_capture_start = file_header 10"
  "buffer ten_capture_start = jack_ringbuffer_create 64"
  "disk_running ten_capture_start" "stop (status ten_capture_start) = 0"
proof -
  have "length (file_header 10) = 7" by (simp add: file_header_ten)
  then show "disk_file ten_capture_start = file_header 10"
    by (simp add: ten_capture_start_def disk_write_start_def initial_world_def ten_ports_def)
  show "buffer ten_capture_start = jack_ringbuffer_create 64"
    "disk_running ten_capture_start" "stop (status ten_capture_start) = 0"
    by (simp_all add: ten_capture_start_def disk_write_start_def initial_world_def
        initial_status_def)
qed

lemma ten_capture_period:
  fixes g2
  defines "g2 \<equiv> capture_turn ten_ports (Jack_capture 1 ten_buffers) ten_capture_start"
  shows "overflows (status g2) = overflows (status ten_capture_start)"
    and "rb_contents (buffer g2) = samples_bytes (frame_interleaved 10 1 ten_buffers)"
    and "rb_wf (buffer g2)"
    and "rb_write_ptr (buffer g2) = 40" "rb_read_ptr (buffer g2) = 0"
    and "length (rb_buf (buffer g2)) = 64"
    and "disk_file g2 = file_header 10" "disk_running g2" "stop (status g2) = 0"
proof -
  have ok: "\<not> jack_ringbuffer_write_space (buffer ten_capture_start)
      < required_bytes 1 (ports ten_ports)"
    by (simp add: ten_capture_start_state create_facts ten_ports_def ten_required)
  have g2: "g2 = signal_disk_thread (ten_capture_start\<lparr>status := (status ten_capture_start)
        \<lparr>jack_calls := jack_calls (status ten_capture_start) + 1\<rparr>,
      buffer := capture_frames ten_buffers 10 1 (jack_ringbuffer_create 64)\<rparr>)"
    unfolding g2_def capture_turn.simps capture_success [OF ok]
    by (simp add: ten_capture_start_state ten_ports_def)
  have "1 * nat 10 * 4 \<le> jack_ringbuffer_write_space (jack_ringbuffer_create 64)"
    by (simp add: create_facts)
  from capture_frames_spec [OF create_facts(1) this, of ten_buffers]
  have s: "rb_wf (capture_frames ten_buffers 10 1 (jack_ringbuffer_create 64))"
    "rb_contents (capture_frames ten_buffers 10 1 (jack_ringbuffer_create 64))
      = samples_bytes (frame_interleaved 10 1 ten_buffers)"
    "rb_write_ptr (capture_frames ten_buffers 10 1 (jack_ringbuffer_create 64)) = 40"
    "rb_read_ptr (capture_frames ten_buffers 10 1 (jack_ringbuffer_create 64)) = 0"
    "length (rb_buf (capture_frames ten_buffers 10 1 (jack_ringbuffer_create 64))) = 64"
    by (simp_all add: create_facts) (simp_all add: jack_ringbuffer_create_def)
  show "overflows (status g2) = overflows (status ten_capture_start)"
    and "rb_contents (buffer g2) = samples_bytes (frame_interleaved 10 1 ten_buffers)"
    and "rb_wf (buffer g2)"
    and "rb_write_ptr (buffer g2) = 40" "rb_read_ptr (buffer g2) = 0"
    and "length (rb_buf (buffer g2)) = 64"
    and "disk_file g2 = file_header 10" "disk_running g2" "stop (status g2) = 0"
    using s by (simp_all add: g2 ten_capture_start_state)
qed

lemma ten_capture_file:
  "disk_file (capture_run ten_ports ten_capture_events ten_capture_start)
     = file_header 10 @ samples_bytes (frame_interleaved 10 1 ten_buffers)"
  "no_overflow ten_ports ten_capture_events ten_capture_start"
proof -
  let ?g2 = "capture_turn ten_ports (Jack_capture 1 ten_buffers) ten_capture_start"
  let ?g2' = "?g2\<lparr>disk_mutex := True\<rparr>"
  note p = ten_capture_period
  have wf: "rb_wf (buffer ?g2')" and sp: "0 < jack_ringbuffer_read_space (buffer ?g2')"
    using p(3,4,5) by (simp_all add: jack_ringbuffer_read_space_def)
  have l: "limit_blocksize ten_ports (vec_len (jack_ringbuffer_get_read_vector (buffer ?g2') ! 0)) = 40"
    using p(4,5,6)
    by (simp add: jack_ringbuffer_get_read_vector_def jack_ringbuffer_read_space_def Let_def
        limit_blocksize_def ten_ports_def initial_config_def size_t_of_int_def)
  have st: "disk_write_step ten_ports (Io_bytes 40) ?g2 = disk_write_iter ten_ports (Io_bytes 40) ?g2'"
    using p(8,9) by (simp add: disk_write_step_def)
  have "disk_file (disk_write_step ten_ports (Io_bytes 40) ?g2)
      = file_header 10 @ samples_bytes (frame_interleaved 10 1 ten_buffers)"
    unfolding st disk_write_iter_io(2) [OF wf sp] l
    using p(2,7) ten_captured(2) by simp
  then show "disk_file (capture_run ten_ports ten_capture_events ten_capture_start)
     = file_header 10 @ samples_bytes (frame_interleaved 10 1 ten_buffers)"
    by (simp add: ten_capture_events_def)
  have "rb_wf (buffer ?g2)" using p(3) .
  from disk_write_step_bytes(4) [OF this, of ten_ports "Io_bytes 40"] p(1)
  show "no_overflow ten_ports ten_capture_events ten_capture_start"
    by (simp add: ten_capture_events_def)
qed

lemma ten_replay_start_state:
  "disk_file ten_replay_start = file_header 10 @ samples_bytes (frame_interleaved 10 1 ten_buffers)"
  "disk_offset ten_replay_start = 6" "disk_running ten_replay_start"
  "stop (status ten_replay_start) = 0" "buffer ten_replay_start = jack_ringbuffer_create 64"
  by (simp_all add: ten_replay_start_def disk_read_start_def initial_world_def ten_capture_file(1)
      file_header_ten os_read_def FILE_HEADER_LEN_def Let_def initial_status_def)

lemma ten_replay_read:
  fixes g2
  defines "g2 \<equiv> replay_turn ten_ports_replay Disk_read ten_replay_start"
  shows "rb_contents (buffer g2) = 0 # samples_bytes (frame_interleaved 10 1 ten_buffers)"
    and "rb_wf (buffer g2)"
    and "underruns (status g2) = underruns (status ten_replay_start)"
proof -
  let ?g = "ten_replay_start\<lparr>disk_mutex := True\<rparr>"
  let ?A = "samples_bytes (frame_interleaved 10 1 ten_buffers)"
  note s = ten_replay_start_state
  have sp: "0 < jack_ringbuffer_write_space (buffer ?g)"
    by (simp add: s create_facts)
  have l: "limit_blocksize ten_ports_replay
      (vec_len (jack_ringbuffer_get_write_vector (buffer ?g) ! 0)) = 41"
    by (simp add: s jack_ringbuffer_get_write_vector_def create_facts Let_def limit_blocksize_def
        ten_ports_replay_def initial_config_def size_t_of_int_def)
      (simp add: jack_ringbuffer_create_def)
  have b: "os_read (disk_file ?g) (disk_offset ?g) 41 = 0 # ?A"
    using ten_captured(2) by (simp add: s os_read_def file_header_ten)
  have len: "length (0 # ?A) = 41" using ten_captured(2) by simp
  have fit: "length (0 # ?A) \<le> jack_ringbuffer_write_space (jack_ringbuffer_create 64)"
    unfolding len by (simp add: create_facts)
  have st: "g2 = disk_read_iter ten_ports_replay ?g"
    by (simp add: g2_def disk_read_step_def s)
  have buf: "buffer g2 = fst (jack_ringbuffer_write (jack_ringbuffer_create 64) (0 # ?A))"
    unfolding st disk_read_iter_io [OF sp] Let_def l b
    using write_advance_is_write [OF fit] len by (simp add: s)
  show "rb_contents (buffer g2) = 0 # ?A"
    unfolding buf using rb_write_contents [OF create_facts(1) fit] by (simp add: create_facts)
  show "rb_wf (buffer g2)"
    unfolding buf by (rule rb_write_wf [OF create_facts(1)])
  show "underruns (status g2) = underruns (status ten_replay_start)"
    unfolding st disk_read_iter_io [OF sp] Let_def l b using len by simp
qed

text \<open>
  Claim C1 says that for every channel count from 1 to 32 a captured signal is replayed
  bit-exact when no overflow and no underrun occurs. With ten ports it is not: the
  header is seven bytes, the disk reader skips six, and every sample is replayed one byte
  late. One frame of ten channels is captured without overflow and replayed without
  underrun; the replayed bytes are the header's zero byte followed by the first 39 bytes
  of the captured 40.
\<close>

theorem ten_ports_replay_differs:
  "no_overflow ten_ports ten_capture_events ten_capture_start
   \<and> disk_file (capture_run ten_ports ten_capture_events ten_capture_start)
       = file_header 10 @ samples_bytes (captured ten_ports ten_capture_events)
   \<and> length (file_header 10) = 7
   \<and> no_underrun ten_ports_replay ten_replay_events ten_replay_start
   \<and> replay_frames_total ten_replay_events = capture_frames_total ten_capture_events
   \<and> samples_bytes (replayed ten_ports_replay ten_replay_events ten_replay_start)
       = 0 # take 39 (samples_bytes (captured ten_ports ten_capture_events))
   \<and> replayed ten_ports_replay ten_replay_events ten_replay_start
       \<noteq> captured ten_ports ten_capture_events"
proof -
  let ?A = "samples_bytes (frame_interleaved 10 1 ten_buffers)"
  let ?g2 = "replay_turn ten_ports_replay Disk_read ten_replay_start"
  let ?bufs = "replicate 10 [zero_sample]"
  note r = ten_replay_read
  have ok: "\<not> jack_ringbuffer_read_space (buffer ?g2) < required_bytes 1 (ports ten_ports_replay)"
    using r(1) ten_captured(2) length_rb_contents [of "buffer ?g2"]
    by (simp add: ten_ports_replay_def ten_required)
  have un: "underruns (status (fst (jack_playback_callback ten_ports_replay 1 ?bufs ?g2)))
      = underruns (status ?g2)"
    unfolding playback_success [OF ok] by simp
  have pb: "port_buffers (nat (ports ten_ports_replay)) 1 ?bufs"
    by (simp add: port_buffers_def ten_ports_replay_def list_all_length)
  have n: "0 \<le> ports ten_ports_replay" "ports ten_ports_replay \<le> 32" "(1::nat) < 2 ^ 31"
    by (simp_all add: ten_ports_replay_def)
  have np: "nat (ports ten_ports_replay) = 10"
    by (simp add: ten_ports_replay_def)
  from playback_turn_bytes(2) [OF r(2) n pb un]
  have "samples_bytes (frame_interleaved 10 1
          (fst (snd (jack_playback_callback ten_ports_replay 1 ?bufs ?g2))))
        @ rb_contents (buffer (fst (jack_playback_callback ten_ports_replay 1 ?bufs ?g2)))
      = 0 # ?A"
    unfolding np r(1) .
  from arg_cong [OF this, of "take 40"]
  have out: "samples_bytes (frame_interleaved 10 1
          (fst (snd (jack_playback_callback ten_ports_replay 1 ?bufs ?g2))))
      = 0 # take 39 ?A"
    by simp
  have rep: "replayed ten_ports_replay ten_replay_events ten_replay_start
      = frame_interleaved 10 1 (fst (snd (jack_playback_callback ten_ports_replay 1 ?bufs ?g2)))"
    by (simp add: ten_replay_events_def np)
  have ne: "replayed ten_ports_replay ten_replay_events ten_replay_start
      \<noteq> captured ten_ports ten_capture_events"
  proof
    assume "replayed ten_ports_replay ten_replay_events ten_replay_start
      = captured ten_ports ten_capture_events"
    then have "0 # take 39 ?A = ?A"
      using out by (simp add: rep ten_captured(1))
    from arg_cong [OF this, of "take 4"]
    have "take 4 (0 # take 39 ?A) = [1, 2, 3, 4]"
      unfolding ten_captured(3) .
    then show False by simp
  qed
  have nu: "no_underrun ten_ports_replay ten_replay_events ten_replay_start"
    using r(3) un by (simp add: ten_replay_events_def)
  show ?thesis
    using ten_capture_file nu ne out
    by (simp add: rep ten_captured(1) file_header_ten) (simp add: ten_replay_events_def ten_capture_events_def)
qed

end
